theory Spec2Isabelle
  imports Main
begin

section \<open>Texts and character classes\<close>

text \<open>
  A Python \<open>str\<close> is modelled as a \<open>string\<close>, a list of characters; a character stands
  for its code point, so the model covers the texts whose code points lie below 256
  (ASCII and Latin-1). The character classes are those of Python on these characters.
  \<open>\s\<close> and \<open>str.strip\<close> know tab, line feed, vertical tab, form feed, carriage return,
  the four separators 0x1C to 0x1F, the blank, the next-line character 0x85 and the
  no-break space 0xA0. \<open>\d\<close> knows the ten digits. \<open>\w\<close> knows the letters, the digits
  and the underscore of ASCII, and the letters and numeric characters of Latin-1.
  A backslash cannot be typed inside a string literal, so it is the constant \<open>BS\<close>;
  the line feed is \<open>NL\<close>.
\<close>

abbreviation BS :: char where
  "BS \<equiv> CHR 0x5C"

abbreviation NL :: char where
  "NL \<equiv> CHR 0x0A"

definition is_space :: "char \<Rightarrow> bool" where
  "is_space c = (c \<in> set [CHR 0x09, CHR 0x0A, CHR 0x0B, CHR 0x0C, CHR 0x0D,
                            CHR 0x1C, CHR 0x1D, CHR 0x1E, CHR 0x1F, CHR 0x20,
                            CHR 0x85, CHR 0xA0])"

definition is_digit :: "char \<Rightarrow> bool" where
  "is_digit c = (c \<in> set ''0123456789'')"

definition latin1_word_chars :: string where
  "latin1_word_chars =
     [CHR 0xAA, CHR 0xB2, CHR 0xB3, CHR 0xB5, CHR 0xB9, CHR 0xBA, CHR 0xBC, CHR 0xBD,
      CHR 0xBE, CHR 0xC0, CHR 0xC1, CHR 0xC2, CHR 0xC3, CHR 0xC4, CHR 0xC5, CHR 0xC6,
      CHR 0xC7, CHR 0xC8, CHR 0xC9, CHR 0xCA, CHR 0xCB, CHR 0xCC, CHR 0xCD, CHR 0xCE,
      CHR 0xCF, CHR 0xD0, CHR 0xD1, CHR 0xD2, CHR 0xD3, CHR 0xD4, CHR 0xD5, CHR 0xD6,
      CHR 0xD8, CHR 0xD9, CHR 0xDA, CHR 0xDB, CHR 0xDC, CHR 0xDD, CHR 0xDE, CHR 0xDF,
      CHR 0xE0, CHR 0xE1, CHR 0xE2, CHR 0xE3, CHR 0xE4, CHR 0xE5, CHR 0xE6, CHR 0xE7,
      CHR 0xE8, CHR 0xE9, CHR 0xEA, CHR 0xEB, CHR 0xEC, CHR 0xED, CHR 0xEE, CHR 0xEF,
      CHR 0xF0, CHR 0xF1, CHR 0xF2, CHR 0xF3, CHR 0xF4, CHR 0xF5, CHR 0xF6, CHR 0xF8,
      CHR 0xF9, CHR 0xFA, CHR 0xFB, CHR 0xFC, CHR 0xFD, CHR 0xFE, CHR 0xFF]"

definition is_word :: "char \<Rightarrow> bool" where
  "is_word c =
     (c \<in> set (''abcdefghijklmnopqrstuvwxyzABCDEFGHIJKLMNOPQRSTUVWXYZ0123456789_'' @
                latin1_word_chars))"

text \<open>The regular expression \<open>.\<close> without the flag DOTALL: any character but the line feed.\<close>

definition dot :: "char \<Rightarrow> bool" where
  "dot c = (c \<noteq> NL)"

text \<open>\<open>.\<close> under DOTALL, and the group \<open>(?:.|\n)\<close>: the line feed is accepted as well.\<close>

definition dot_all :: "char \<Rightarrow> bool" where
  "dot_all c = (c \<noteq> NL \<or> c = NL)"

text \<open>
  \<open>str.upper\<close>: the letters \<open>a\<close> to \<open>z\<close> and the small letters 0xE0 to 0xFE of Latin-1
  (0xF7 is the division sign) go to their capitals, 0x20 below them, and the sharp s
  0xDF becomes \<open>SS\<close>. The capitals of the micro sign 0xB5 and of 0xFF lie beyond code
  point 255; the two characters stay as they are, each a letter as its capital is, and
  the program only searches the upper-case title for ASCII words.
\<close>

definition latin1_lower :: string where
  "latin1_lower =
     [CHR 0xE0, CHR 0xE1, CHR 0xE2, CHR 0xE3, CHR 0xE4, CHR 0xE5, CHR 0xE6, CHR 0xE7,
      CHR 0xE8, CHR 0xE9, CHR 0xEA, CHR 0xEB, CHR 0xEC, CHR 0xED, CHR 0xEE, CHR 0xEF,
      CHR 0xF0, CHR 0xF1, CHR 0xF2, CHR 0xF3, CHR 0xF4, CHR 0xF5, CHR 0xF6, CHR 0xF8,
      CHR 0xF9, CHR 0xFA, CHR 0xFB, CHR 0xFC, CHR 0xFD, CHR 0xFE]"

definition latin1_upper :: string where
  "latin1_upper =
     [CHR 0xC0, CHR 0xC1, CHR 0xC2, CHR 0xC3, CHR 0xC4, CHR 0xC5, CHR 0xC6, CHR 0xC7,
      CHR 0xC8, CHR 0xC9, CHR 0xCA, CHR 0xCB, CHR 0xCC, CHR 0xCD, CHR 0xCE, CHR 0xCF,
      CHR 0xD0, CHR 0xD1, CHR 0xD2, CHR 0xD3, CHR 0xD4, CHR 0xD5, CHR 0xD6, CHR 0xD8,
      CHR 0xD9, CHR 0xDA, CHR 0xDB, CHR 0xDC, CHR 0xDD, CHR 0xDE]"

definition upper_char :: "char \<Rightarrow> char" where
  "upper_char c =
     (case map_of (zip (''abcdefghijklmnopqrstuvwxyz'' @ latin1_lower)
                       (''ABCDEFGHIJKLMNOPQRSTUVWXYZ'' @ latin1_upper)) c of
        None \<Rightarrow> c | Some u \<Rightarrow> u)"

definition upper :: "string \<Rightarrow> string" where
  "upper s = concat (map (\<lambda>c. if c = CHR 0xDF then ''SS'' else [upper_char c]) s)"

definition strip :: "string \<Rightarrow> string" where
  "strip s = rev (dropWhile is_space (rev (dropWhile is_space s)))"

text \<open>\<open>p in s\<close> on strings: \<open>p\<close> occurs somewhere in \<open>s\<close>.\<close>

fun starts_with :: "string \<Rightarrow> string \<Rightarrow> bool" where
  "starts_with [] s = True"
| "starts_with (p # ps) [] = False"
| "starts_with (p # ps) (c # cs) = (p = c \<and> starts_with ps cs)"

fun contains :: "string \<Rightarrow> string \<Rightarrow> bool" where
  "contains p [] = (p = [])"
| "contains p (c # cs) = (starts_with p (c # cs) \<or> contains p cs)"

text \<open>\<open>str(i)\<close> of a natural number, as the f-strings of the block ids print it.\<close>

definition digit_char :: "nat \<Rightarrow> char" where
  "digit_char d = ''0123456789'' ! d"

fun str_nat :: "nat \<Rightarrow> string" where
  "str_nat n = (if n < 10 then [digit_char n] else str_nat (n div 10) @ [digit_char (n mod 10)])"

declare str_nat.simps [simp del]

section \<open>Regular expressions of the program\<close>

text \<open>
  A pattern is a backtracking matcher in continuation style, as Python's \<open>re\<close> runs it:
  it is tried at the start of the remaining text, and hands the text left after it to
  its continuation; when the continuation fails, the matcher tries its next alternative.
  A compiled pattern returns the captured groups and the text after the match.
\<close>

type_synonym 'a cont = "string \<Rightarrow> 'a option"

type_synonym matcher = "string \<Rightarrow> (string list \<times> string) option"

text \<open>A sequence of literal characters.\<close>

fun lit :: "string \<Rightarrow> 'a cont \<Rightarrow> 'a cont" where
  "lit [] k s = k s"
| "lit (p # ps) k [] = None"
| "lit (p # ps) k (c # cs) = (if p = c then lit ps k cs else None)"

text \<open>
  The lazy star \<open>X*?\<close> of a one-character class, capturing what it consumed: the
  continuation is tried first, and one more character is taken only when it fails.
\<close>

fun lazy_star :: "(char \<Rightarrow> bool) \<Rightarrow> (string \<Rightarrow> 'a cont) \<Rightarrow> string \<Rightarrow> 'a cont" where
  "lazy_star P k acc [] = k acc []"
| "lazy_star P k acc (c # cs) =
     (case k acc (c # cs) of
        Some r \<Rightarrow> Some r
      | None \<Rightarrow> if P c then lazy_star P k (acc @ [c]) cs else None)"

text \<open>
  The greedy star \<open>X*\<close> of a one-character class: as many characters as possible are
  taken first, and one is given back each time the continuation fails.
\<close>

fun greedy_star :: "(char \<Rightarrow> bool) \<Rightarrow> (string \<Rightarrow> 'a cont) \<Rightarrow> string \<Rightarrow> 'a cont" where
  "greedy_star P k acc [] = k acc []"
| "greedy_star P k acc (c # cs) =
     (if P c then
        (case greedy_star P k (acc @ [c]) cs of
           Some r \<Rightarrow> Some r
         | None \<Rightarrow> k acc (c # cs))
      else k acc (c # cs))"

text \<open>The greedy \<open>X+\<close>: one character of the class, then the greedy star.\<close>

fun greedy_plus :: "(char \<Rightarrow> bool) \<Rightarrow> (string \<Rightarrow> 'a cont) \<Rightarrow> 'a cont" where
  "greedy_plus P k [] = None"
| "greedy_plus P k (c # cs) = (if P c then greedy_star P k [c] cs else None)"

text \<open>The alternation \<open>A|B\<close>: \<open>B\<close> is tried when \<open>A\<close>, with the continuation, fails.\<close>

definition alt :: "('a cont \<Rightarrow> 'a cont) \<Rightarrow> ('a cont \<Rightarrow> 'a cont) \<Rightarrow> 'a cont \<Rightarrow> 'a cont" where
  "alt a b k s = (case a k s of Some r \<Rightarrow> Some r | None \<Rightarrow> b k s)"

text \<open>
  The word boundary \<open>\b\<close> between the character before the position (none at the start
  of the text) and the character at it (none at the end).
\<close>

definition is_word_opt :: "char option \<Rightarrow> bool" where
  "is_word_opt c = (case c of None \<Rightarrow> False | Some x \<Rightarrow> is_word x)"

definition first_char :: "string \<Rightarrow> char option" where
  "first_char s = (case s of [] \<Rightarrow> None | c # _ \<Rightarrow> Some c)"

definition word_boundary :: "char option \<Rightarrow> 'a cont \<Rightarrow> 'a cont" where
  "word_boundary prev k s = (if is_word_opt prev \<noteq> is_word_opt (first_char s) then k s else None)"

subsection \<open>Scanning a text for the matches of a pattern\<close>

text \<open>
  \<open>re.sub\<close>, \<open>re.subn\<close> and \<open>re.split\<close> walk over the non-overlapping matches from left
  to right: the pattern is tried at each position, the leftmost match is taken and
  the scan goes on after it. \<open>re_scan\<close> returns, for each match, the text between the
  previous match and this one with the groups of the match, and the text after the
  last match. Every pattern of the program consumes at least one character, so a
  match is never empty; the scan treats an empty match as no match.
\<close>

function re_scan :: "matcher \<Rightarrow> string \<Rightarrow> string \<Rightarrow> (string \<times> string list) list \<times> string" where
  "re_scan m acc [] = ([], acc)"
| "re_scan m acc (c # cs) =
     (case m (c # cs) of
        None \<Rightarrow> re_scan m (acc @ [c]) cs
      | Some (gs, r) \<Rightarrow>
          if length r \<le> length cs
          then (case re_scan m [] r of (ms, t) \<Rightarrow> ((acc, gs) # ms, t))
          else re_scan m (acc @ [c]) cs)"
  by pat_completeness auto
termination
  by (relation "measure (\<lambda>(m, acc, s). length s)") auto

text \<open>
  A replacement template of \<open>re.sub\<close>: \<open>\\\<close> is one backslash, \<open>\n\<close> a line feed,
  \<open>\1\<close> the first group, and a backslash before any other character that is no letter
  stays, with that character.
\<close>

fun expand_template :: "string \<Rightarrow> string list \<Rightarrow> string" where
  "expand_template [] gs = []"
| "expand_template [c] gs = [c]"
| "expand_template (c # d # cs) gs =
     (if c = BS then
        (if d = BS then BS # expand_template cs gs
         else if d = CHR ''n'' then NL # expand_template cs gs
         else if d = CHR ''1'' then (case gs of [] \<Rightarrow> [] | g # _ \<Rightarrow> g) @ expand_template cs gs
         else BS # d # expand_template cs gs)
      else c # expand_template (d # cs) gs)"

text \<open>\<open>re.subn(pattern, repl, text)\<close> with a replacement function, and with a template.\<close>

definition re_subn_fn :: "matcher \<Rightarrow> (string list \<Rightarrow> string) \<Rightarrow> string \<Rightarrow> string \<times> nat" where
  "re_subn_fn m f s =
     (case re_scan m [] s of
        (ms, t) \<Rightarrow> (concat (map (\<lambda>(pre, gs). pre @ f gs) ms) @ t, length ms))"

definition re_subn :: "matcher \<Rightarrow> string \<Rightarrow> string \<Rightarrow> string \<times> nat" where
  "re_subn m repl s = re_subn_fn m (expand_template repl) s"

definition re_sub_fn :: "matcher \<Rightarrow> (string list \<Rightarrow> string) \<Rightarrow> string \<Rightarrow> string" where
  "re_sub_fn m f s = fst (re_subn_fn m f s)"

definition re_sub :: "matcher \<Rightarrow> string \<Rightarrow> string \<Rightarrow> string" where
  "re_sub m repl s = fst (re_subn m repl s)"

text \<open>
  \<open>re.split(pattern, text)\<close>: the texts between the matches, each match contributing its
  groups in between.
\<close>

definition re_split :: "matcher \<Rightarrow> string \<Rightarrow> string list" where
  "re_split m s =
     (case re_scan m [] s of
        (ms, t) \<Rightarrow> concat (map (\<lambda>(pre, gs). pre # gs) ms) @ [t])"

text \<open>\<open>re.search(pattern, text)\<close> as a truth value: the pattern matches at some position.\<close>

fun re_search :: "matcher \<Rightarrow> string \<Rightarrow> bool" where
  "re_search m [] = (m [] \<noteq> None)"
| "re_search m (c # cs) = (m (c # cs) \<noteq> None \<or> re_search m cs)"

text \<open>The same for a pattern that looks at the character before the position.\<close>

fun re_search_b :: "(char option \<Rightarrow> matcher) \<Rightarrow> char option \<Rightarrow> string \<Rightarrow> bool" where
  "re_search_b m prev [] = (m prev [] \<noteq> None)"
| "re_search_b m prev (c # cs) = (m prev (c # cs) \<noteq> None \<or> re_search_b m (Some c) cs)"

text \<open>\<open>s.replace(old, new)\<close> with a non-empty \<open>old\<close>: the same scan with a literal.\<close>

definition str_replace :: "string \<Rightarrow> string \<Rightarrow> string \<Rightarrow> string" where
  "str_replace old new s = re_sub_fn (lit old (\<lambda>r. Some ([], r))) (\<lambda>gs. new) s"
subsection \<open>The patterns\<close>

text \<open>
  \<^verbatim>\<open>\\end{document}.*\<close> under DOTALL: the literal marker (a brace that opens no
  repetition count is a literal brace), then everything up to the end of the text.
\<close>

definition end_document_pat :: matcher where
  "end_document_pat =
     lit (BS # ''end{document}'') (greedy_star dot_all (\<lambda>g r. Some ([], r)) [])"

text \<open>
  \<^verbatim>\<open>\\section\*{(\[.*?\])}\<close>: the group holds the bracketed label, brackets
  included; the lazy \<open>.*?\<close> stops at the first \<open>]}\<close> and crosses no line feed.
\<close>

definition section_pat :: matcher where
  "section_pat =
     lit (BS # ''section*{'')
       (lit ''[''
         (lazy_star dot
           (\<lambda>g. lit '']'' (lit ''}'' (\<lambda>r. Some ([''['' @ g @ '']''], r)))) []))"

text \<open>\<^verbatim>\<open>\\section\*{(\[atomic_.*?])}\<close>: the same with the label prefix \<open>atomic_\<close>.\<close>

definition atomic_pat :: matcher where
  "atomic_pat =
     lit (BS # ''section*{'')
       (lit ''[atomic_''
         (lazy_star dot
           (\<lambda>g. lit '']'' (lit ''}'' (\<lambda>r. Some ([''[atomic_'' @ g @ '']''], r)))) []))"

text \<open>
  \<^verbatim>\<open>\\\[\s*(.*?)\s*\\\]\<close>: backslash and bracket, greedy white space, the lazy
  group, greedy white space, backslash and closing bracket. The argument says
  whether the flag DOTALL is set.
\<close>

definition display_math_pat :: "bool \<Rightarrow> matcher" where
  "display_math_pat dotall =
     lit [BS, CHR ''['']
       (greedy_star is_space
         (\<lambda>w. lazy_star (if dotall then dot_all else dot)
           (\<lambda>g. greedy_star is_space
             (\<lambda>v. lit [BS, CHR '']''] (\<lambda>r. Some ([g], r))) []) []) [])"

text \<open>\<^verbatim>\<open>\s+\<close>\<close>

definition spaces_pat :: matcher where
  "spaces_pat = greedy_plus is_space (\<lambda>g r. Some ([], r))"

text \<open>\<^verbatim>\<open>\[SECTION_\d+\]\<close>\<close>

definition section_label_pat :: matcher where
  "section_label_pat =
     lit ''[SECTION_'' (greedy_plus is_digit (\<lambda>d. lit '']'' (\<lambda>r. Some ([], r))))"

text \<open>
  \<^verbatim>\<open>\b(PROMPT|RESPONSE)\b\<close>: the closing \<open>\b\<close> follows the last letter of the
  alternative that matched, so it is written inside each alternative.
\<close>

definition prompt_response_pat :: "char option \<Rightarrow> matcher" where
  "prompt_response_pat prev =
     word_boundary prev
       (alt (\<lambda>k. lit ''PROMPT'' (word_boundary (Some (CHR ''T'')) k))
            (\<lambda>k. lit ''RESPONSE'' (word_boundary (Some (CHR ''E'')) k))
            (\<lambda>r. Some ([], r)))"

text \<open>A pattern that is one literal, such as \<^verbatim>\<open>\\frac\<close>.\<close>

definition literal_pat :: "string \<Rightarrow> matcher" where
  "literal_pat p = lit p (\<lambda>r. Some ([], r))"

section \<open>app.py\<close>

subsection \<open>\<open>transform_latex_equations\<close>\<close>

definition group1 :: "string list \<Rightarrow> string" where
  "group1 gs = (case gs of [] \<Rightarrow> [] | g # _ \<Rightarrow> g)"

definition replace_equation :: "string list \<Rightarrow> string" where
  "replace_equation gs =
     (let equation = group1 gs;
          equation = strip (re_sub spaces_pat '' '' equation)
      in [BS, CHR ''['', CHR '' ''] @ equation @ [CHR '' '', BS, CHR '']''])"

definition transform_latex_equations :: "string \<Rightarrow> string" where
  "transform_latex_equations text = re_sub_fn (display_math_pat True) replace_equation text"

subsection \<open>\<open>perform_substitutions\<close>\<close>

text \<open>
  The list of pairs of a pattern and a replacement template, as the source writes
  them in raw strings: each pattern is a backslash (written twice in the regular
  expression) and a name.
\<close>

definition substitutions :: "(matcher \<times> string) list" where
  "substitutions =
     [(literal_pat [BS, BS], [BS, BS] @ ''newline''),
      (literal_pat (BS # ''frac''), [BS, BS, BS, BS] @ ''frac''),
      (literal_pat (BS # ''right''), [BS, BS, BS, BS] @ ''right''),
      (literal_pat (BS # ''rfloor''), [BS, BS, BS, BS] @ ''rfloor''),
      (literal_pat (BS # ''begin''), [BS, BS, BS, BS] @ ''begin''),
      (literal_pat (BS # ''theta''), [BS, BS, BS, BS] @ ''theta''),
      (literal_pat (BS # ''_''), ''_'')]"

definition perform_substitutions :: "string \<Rightarrow> string" where
  "perform_substitutions input_text =
     foldl (\<lambda>output_text (old, new). re_sub old new output_text) input_text substitutions"

subsection \<open>\<open>parse_input_to_notebook\<close>\<close>

text \<open>
  A cell of the notebook; its \<open>metadata\<close> is the empty dictionary in every cell and is
  left out. The notebook carries the cells, the list \<open>metadata.colab.provenance\<close>
  and the two format numbers.
\<close>

record cell =
  cell_type :: string
  source :: "string list"
  cell_id :: string

record notebook =
  cells :: "cell list"
  provenance :: "string list"
  nbformat :: nat
  nbformat_minor :: nat

datatype error = IndexError

definition markdown_cell :: "string \<Rightarrow> string \<Rightarrow> cell" where
  "markdown_cell src ident = \<lparr>cell_type = ''markdown'', source = [src], cell_id = ident\<rparr>"

definition metadata_text :: string where
  "metadata_text =
     ''# Metadata'' @ [NL, NL] @ ''**Topic:** - Mathematics'' @ [NL, NL] @
     ''**Subtopic:** - '' @ [NL, NL] @ ''**Difficulty:** - '' @ [NL, NL] @
     ''**Explanation:** -  '' @ [NL, NL] @ ''**Sections:** - '' @ [NL, NL] @
     ''**Prompt:** - '' @ [CHR 0x09, NL]"

text \<open>\<^verbatim>\<open>re.sub(r'\\end{document}.*', '', text, flags=re.DOTALL)\<close>\<close>

definition remove_end_document :: "string \<Rightarrow> string" where
  "remove_end_document text = re_sub end_document_pat [] text"

text \<open>
  The cell that the loop over the atomic parts appends for the pair at index \<open>j\<close>
  inside the section at index \<open>i\<close>, from the title \<open>atomic_parts[j]\<close> and the text
  \<open>atomic_parts[j + 1]\<close>. The template of the display equations is, in the source, the
  raw string \<^verbatim>\<open>\\[\n\1\n\\]\<close>.
\<close>

definition atomic_cell :: "nat \<Rightarrow> nat \<Rightarrow> string \<Rightarrow> string \<Rightarrow> cell" where
  "atomic_cell i j atomic_title raw =
     (let atomic_content = strip raw;
          atomic_content = remove_end_document atomic_content;
          atomic_content =
            re_sub (display_math_pat False)
              ([BS, BS] @ ''['' @ [BS] @ ''n'' @ [BS] @ ''1'' @ [BS] @ ''n'' @ [BS, BS] @ '']'')
              atomic_content;
          atomic_content = str_replace [NL] [CHR '' '', CHR '' '', NL] atomic_content
      in markdown_cell (''**'' @ atomic_title @ ''**'' @ [NL, NL] @ atomic_content)
                       (atomic_title @ ''_'' @ str_nat i @ ''_'' @ str_nat j))"

text \<open>
  The loop \<open>for j in range(1, len(atomic_parts), 2)\<close>: the read of
  \<open>atomic_parts[j + 1]\<close> raises IndexError when it is out of range.
\<close>

function atomic_loop :: "string list \<Rightarrow> nat \<Rightarrow> nat \<Rightarrow> cell list \<Rightarrow> error + cell list" where
  "atomic_loop atomic_parts i j cs =
     (if j < length atomic_parts then
        (if j + 1 < length atomic_parts then
           atomic_loop atomic_parts i (j + 2)
             (cs @ [atomic_cell i j (atomic_parts ! j) (atomic_parts ! (j + 1))])
         else Inl IndexError)
      else Inr cs)"
  by pat_completeness auto
termination
  by (relation "measure (\<lambda>(atomic_parts, i, j, cs). length atomic_parts - j)") auto

declare atomic_loop.simps [simp del]

text \<open>
  The body of the loop over the sections, for the pair at index \<open>i\<close> with the title
  \<open>sections[i]\<close> and the text \<open>sections[i + 1]\<close>. The divider depends on the title in
  upper case; the content is stripped and cut at the end of the document (once more
  for a title that holds RESPONSE); the cell of the section is appended in every
  case, and the cells of the atomic parts after it when the content splits.
\<close>

definition divider_cells :: "nat \<Rightarrow> string \<Rightarrow> cell list" where
  "divider_cells i section_title =
     (if re_search section_label_pat (upper section_title)
      then [markdown_cell ''---'' (''separator_before_'' @ section_title)]
      else if re_search_b prompt_response_pat None (upper section_title)
      then [markdown_cell ''---'' (''separator_'' @ str_nat i)]
      else [])"

definition section_content :: "string \<Rightarrow> string \<Rightarrow> string" where
  "section_content section_title raw =
     (let content = strip raw;
          content = remove_end_document content
      in if contains ''RESPONSE'' (upper section_title)
         then remove_end_document content else content)"

definition section_cell :: "nat \<Rightarrow> string \<Rightarrow> string \<Rightarrow> cell" where
  "section_cell i section_title content =
     markdown_cell (''**'' @ section_title @ ''**'' @ [NL, NL] @ content)
                   (''section_'' @ str_nat i)"

definition section_body :: "nat \<Rightarrow> string \<Rightarrow> string \<Rightarrow> error + cell list" where
  "section_body i section_title raw =
     (let content = section_content section_title raw;
          new = divider_cells i section_title @ [section_cell i section_title content];
          atomic_parts = re_split atomic_pat content
      in if length atomic_parts > 1
         then atomic_loop atomic_parts i 1 new
         else Inr new)"

text \<open>
  The loop \<open>for i in range(1, len(sections), 2)\<close>: the read of \<open>sections[i + 1]\<close> raises
  IndexError when it is out of range.
\<close>

function section_loop :: "string list \<Rightarrow> nat \<Rightarrow> cell list \<Rightarrow> error + cell list" where
  "section_loop sections i cs =
     (if i < length sections then
        (if i + 1 < length sections then
           (case section_body i (sections ! i) (sections ! (i + 1)) of
              Inl e \<Rightarrow> Inl e
            | Inr new \<Rightarrow> section_loop sections (i + 2) (cs @ new))
         else Inl IndexError)
      else Inr cs)"
  by pat_completeness auto
termination
  by (relation "measure (\<lambda>(sections, i, cs). length sections - i)") auto

declare section_loop.simps [simp del]

text \<open>
  What the loop appends for the pair at index \<open>k\<close> of the split when nothing is split
  off the content: the divider, if the title asks for one, and the cell of the section.
\<close>

definition plain_cells :: "string list \<Rightarrow> nat \<Rightarrow> cell list" where
  "plain_cells secs k =
     divider_cells k (secs ! k) @
     [section_cell k (secs ! k) (section_content (secs ! k) (secs ! (k + 1)))]"

text \<open>The ids of these cells, as the f-strings of the loop body build them.\<close>

definition plain_ids :: "string list \<Rightarrow> nat \<Rightarrow> string list" where
  "plain_ids secs k =
     (if re_search section_label_pat (upper (secs ! k))
      then [''separator_before_'' @ secs ! k]
      else if re_search_b prompt_response_pat None (upper (secs ! k))
      then [''separator_'' @ str_nat k]
      else []) @ [''section_'' @ str_nat k]"

text \<open>The final cleanup of one source text, and of a cell.\<close>

definition cleanup_text :: "string \<Rightarrow> string" where
  "cleanup_text t = remove_end_document (str_replace [BS, BS] [BS] t)"

definition cleanup_cell :: "cell \<Rightarrow> cell" where
  "cleanup_cell c =
     (if cell_type c = ''markdown'' then c\<lparr>source := map cleanup_text (source c)\<rparr> else c)"

definition parse_input_to_notebook :: "string \<Rightarrow> error + notebook" where
  "parse_input_to_notebook text =
     (let cs = [markdown_cell metadata_text ''metadata_cell''];
          text = remove_end_document text;
          sections = re_split section_pat text
      in case section_loop sections 1 cs of
           Inl e \<Rightarrow> Inl e
         | Inr cs \<Rightarrow>
             Inr \<lparr>cells = map cleanup_cell (cs @ [markdown_cell ''---'' ''final_separator'']),
                  provenance = [], nbformat = 4, nbformat_minor = 5\<rparr>)"

subsection \<open>\<open>escape_latex_delimiters_in_notebook\<close>\<close>

text \<open>
  The four pairs of a pattern and a template; in the source both are the same raw
  string of three backslashes and the delimiter. As a pattern it is an escaped
  backslash and an escaped delimiter; as a template it is an escaped backslash, then
  a backslash before a character that is no letter.
\<close>

definition delimiter_subs :: "(matcher \<times> string) list" where
  "delimiter_subs =
     [(literal_pat [BS, CHR ''(''], [BS, BS, BS, CHR ''('']),
      (literal_pat [BS, CHR '')''], [BS, BS, BS, CHR '')'']),
      (literal_pat [BS, CHR ''[''], [BS, BS, BS, CHR ''['']),
      (literal_pat [BS, CHR '']''], [BS, BS, BS, CHR '']''])]"

definition escape_latex_delimiters_in_notebook :: "notebook \<Rightarrow> notebook" where
  "escape_latex_delimiters_in_notebook nb =
     nb\<lparr>cells :=
          map (\<lambda>c. if cell_type c = ''markdown''
                    then c\<lparr>source := map (\<lambda>text. foldl (\<lambda>text (old, new). re_sub old new text)
                                                       text delimiter_subs) (source c)\<rparr>
                    else c)
              (cells nb)\<rparr>"

subsection \<open>The conversion of the main script\<close>

text \<open>
  The main script transforms the pasted text, escapes the macros and hands the result
  to \<open>parse_input_to_notebook\<close>; the delimiters of the notebook are escaped last.
\<close>

definition structured_notebook :: "string \<Rightarrow> error + notebook" where
  "structured_notebook input_text =
     (let transformed_text = transform_latex_equations input_text;
          output_text = perform_substitutions transformed_text
      in parse_input_to_notebook output_text)"

definition final_notebook :: "string \<Rightarrow> error + notebook" where
  "final_notebook input_text =
     (case structured_notebook input_text of
        Inl e \<Rightarrow> Inl e
      | Inr nb \<Rightarrow> Inr (escape_latex_delimiters_in_notebook nb))"

section \<open>app\_dollar.py\<close>

text \<open>
  The environment name is pasted into the pattern as it is, between \<^verbatim>\<open>\{\<close> and
  \<^verbatim>\<open>\}\<close>: a letter is a literal, and a letter followed by \<open>*\<close> is the greedy star of
  that letter. The names of the program hold letters and \<open>*\<close> only.
\<close>

fun env_name_rx :: "string \<Rightarrow> 'a cont \<Rightarrow> 'a cont" where
  "env_name_rx [] k = k"
| "env_name_rx [c] k = lit [c] k"
| "env_name_rx (c # d # cs) k =
     (if d = CHR ''*'' then greedy_star (\<lambda>x. x = c) (\<lambda>g. env_name_rx cs k) []
      else lit [c] (env_name_rx (d # cs) k))"

text \<open>\<^verbatim>\<open>\\\[((?:.|\n)*?)\\\]\<close>\<close>

definition bracket_pat :: matcher where
  "bracket_pat =
     lit [BS, CHR ''['']
       (lazy_star dot_all (\<lambda>g. lit [BS, CHR '']''] (\<lambda>r. Some ([g], r))) [])"

text \<open>\<^verbatim>\<open>\\begin\{ENV\}((?:.|\n)*?)\\end\{ENV\}\<close> with the name pasted for ENV.\<close>

definition env_pat :: "string \<Rightarrow> matcher" where
  "env_pat env =
     lit (BS # ''begin{'')
       (env_name_rx env
         (lit ''}''
           (lazy_star dot_all
             (\<lambda>g. lit (BS # ''end{'') (env_name_rx env (lit ''}'' (\<lambda>r. Some ([g], r))))) [])))"

text \<open>\<^verbatim>\<open>\\\((.*?)\\\)\<close>\<close>

definition paren_pat :: matcher where
  "paren_pat =
     lit [BS, CHR ''('']
       (lazy_star dot (\<lambda>g. lit [BS, CHR '')''] (\<lambda>r. Some ([g], r))) [])"

text \<open>\<^verbatim>\<open>\\ensuremath\{(.*?)\}\<close>\<close>

definition ensuremath_pat :: matcher where
  "ensuremath_pat =
     lit (BS # ''ensuremath{'')
       (lazy_star dot (\<lambda>g. lit ''}'' (\<lambda>r. Some ([g], r))) [])"

definition display_envs :: "string list" where
  "display_envs =
     [''equation*'', ''equation'', ''align*'', ''align'',
      ''gather*'', ''gather'', ''multline*'', ''multline'']"

text \<open>
  The two variables that the helper \<open>convert_and_count\<close> updates (\<open>nonlocal\<close>), and the
  helper: the text and the count change only when the pass replaced something.
\<close>

record conv_state =
  current_text :: string
  conversion_count :: nat

definition convert_and_count :: "matcher \<Rightarrow> string \<Rightarrow> conv_state \<Rightarrow> conv_state" where
  "convert_and_count pattern replacement st =
     (case re_subn pattern replacement (current_text st) of
        (new_text, count) \<Rightarrow>
          if count > 0
          then st\<lparr>current_text := new_text, conversion_count := conversion_count st + count\<rparr>
          else st)"

definition convert_latex_delimiters :: "string \<Rightarrow> string \<times> nat" where
  "convert_latex_delimiters text =
     (let st = \<lparr>current_text = text, conversion_count = 0\<rparr>;
          st = convert_and_count bracket_pat (''$$'' @ [BS] @ ''1$$'') st;
          st = foldl (\<lambda>st env. convert_and_count (env_pat env) (''$$'' @ [BS] @ ''1$$'') st)
                     st display_envs;
          st = convert_and_count paren_pat (''$'' @ [BS] @ ''1$'') st;
          st = convert_and_count ensuremath_pat (''$'' @ [BS] @ ''1$'') st
      in (current_text st, conversion_count st))"

text \<open>
  The passes as the specification lists them: a pass replaces every match in the text it
  is given and adds the number of its matches to the count.
\<close>

definition st_of :: "string \<times> nat \<Rightarrow> conv_state" where
  "st_of tn = \<lparr>current_text = fst tn, conversion_count = snd tn\<rparr>"

definition apply_pass :: "string \<times> nat \<Rightarrow> matcher \<times> string \<Rightarrow> string \<times> nat" where
  "apply_pass tn pass =
     (fst (re_subn (fst pass) (snd pass) (fst tn)),
      snd tn + snd (re_subn (fst pass) (snd pass) (fst tn)))"

definition passes :: "(matcher \<times> string) list" where
  "passes =
     [(bracket_pat, ''$$'' @ [BS] @ ''1$$'')] @
     map (\<lambda>env. (env_pat env, ''$$'' @ [BS] @ ''1$$'')) display_envs @
     [(paren_pat, ''$'' @ [BS] @ ''1$''), (ensuremath_pat, ''$'' @ [BS] @ ''1$'')]"

section \<open>Example texts\<close>

text \<open>
  The example of the specification: a section \<open>[SECTION_01]\<close> with the line
  \<open>Hello\<close>, a marker \<open>[atomic_a]\<close> with the lines \<open>foo\<close> and \<open>bar\<close>, and the end of
  the document.
\<close>

definition spec_example_text :: string where
  "spec_example_text =
     BS # ''section*{[SECTION_01]}'' @ [NL] @ ''Hello'' @ [NL] @
     BS # ''section*{[atomic_a]}'' @ [NL] @ ''foo'' @ [NL] @ ''bar'' @ [NL] @
     BS # ''end{document}''"

section \<open>Properties of the matchers\<close>

lemma starts_with_iff: "starts_with p s \<longleftrightarrow> (\<exists>t. s = p @ t)"
  by (induction p s rule: starts_with.induct) auto

lemma lit_eq: "lit p k s = (if starts_with p s then k (drop (length p) s) else None)"
  by (induction p k s rule: lit.induct) auto

lemma lit_append: "lit (p @ q) k s = lit p (lit q k) s"
  by (induction p k s rule: lit.induct) auto

lemma lit_Some_iff: "lit p k s = Some r \<longleftrightarrow> (\<exists>t. s = p @ t \<and> k t = Some r)"
  by (auto simp: lit_eq starts_with_iff)

lemma lit_app [simp]: "lit p k (p @ t) = k t"
  by (simp add: lit_eq starts_with_iff)

lemma lazy_star_SomeD:
  "lazy_star P k acc s = Some res \<Longrightarrow>
     \<exists>u v. s = u @ v \<and> (\<forall>c\<in>set u. P c) \<and> k (acc @ u) v = Some res"
proof (induction s arbitrary: acc)
  case Nil
  then show ?case by simp
next
  case (Cons c cs)
  show ?case
  proof (cases "k acc (c # cs)")
    case (Some r)
    with Cons.prems have "k (acc @ []) (c # cs) = Some res" by simp
    then show ?thesis by (metis append_Nil empty_iff list.set(1))
  next
    case None
    with Cons.prems have pc: "P c" and rec: "lazy_star P k (acc @ [c]) cs = Some res"
      by (auto split: if_splits)
    from Cons.IH [OF rec] obtain u v where
      "cs = u @ v" "\<forall>x\<in>set u. P x" "k ((acc @ [c]) @ u) v = Some res" by blast
    with pc have "c # cs = (c # u) @ v \<and> (\<forall>x\<in>set (c # u). P x) \<and> k (acc @ (c # u)) v = Some res"
      by simp
    then show ?thesis by blast
  qed
qed

lemma greedy_star_SomeD:
  "greedy_star P k acc s = Some res \<Longrightarrow>
     \<exists>u v. s = u @ v \<and> (\<forall>c\<in>set u. P c) \<and> k (acc @ u) v = Some res"
proof (induction s arbitrary: acc)
  case Nil
  then show ?case by simp
next
  case (Cons c cs)
  show ?case
  proof (cases "P c \<and> greedy_star P k (acc @ [c]) cs \<noteq> None")
    case True
    with Cons.prems have pc: "P c" and rec: "greedy_star P k (acc @ [c]) cs = Some res"
      by (auto split: if_splits option.splits)
    from Cons.IH [OF rec] obtain u v where
      "cs = u @ v" "\<forall>x\<in>set u. P x" "k ((acc @ [c]) @ u) v = Some res" by blast
    with pc have "c # cs = (c # u) @ v \<and> (\<forall>x\<in>set (c # u). P x) \<and> k (acc @ (c # u)) v = Some res"
      by simp
    then show ?thesis by blast
  next
    case False
    with Cons.prems have "k (acc @ []) (c # cs) = Some res"
      by (auto split: if_splits option.splits)
    then show ?thesis by (metis append_Nil empty_iff list.set(1))
  qed
qed

text \<open>
  A lazy star followed by a literal that ends the pattern: a match stays the same match
  when more text follows.
\<close>

lemma lazy_lit_length:
  "lazy_star P (\<lambda>g. lit q (\<lambda>r. Some (F g r))) acc s = Some res \<Longrightarrow> length q \<le> length s"
  by (drule lazy_star_SomeD) (auto simp: lit_Some_iff)

lemma lit_ext_None:
  "lit q k s = None \<Longrightarrow> length q \<le> length s \<Longrightarrow> (\<And>t. k t \<noteq> None) \<Longrightarrow> lit q k' (s @ y) = None"
  apply (induction q k s rule: lit.induct)
    apply (auto split: if_splits)
  done

lemma lazy_lit_ext:
  assumes "lazy_star P (\<lambda>g. lit q (\<lambda>r. Some (F g, r))) acc s = Some (gs, r)"
  shows "lazy_star P (\<lambda>g. lit q (\<lambda>r. Some (F g, r))) acc (s @ y) = Some (gs, r @ y)"
  using assms
proof (induction s arbitrary: acc)
  case Nil
  then have q: "q = []" and res: "gs = F acc" "r = []"
    by (auto simp: lit_Some_iff)
  show ?case by (cases y) (simp_all add: q res)
next
  case (Cons c cs)
  let ?k = "\<lambda>g. lit q (\<lambda>r. Some (F g, r))"
  show ?case
  proof (cases "?k acc (c # cs)")
    case (Some res)
    with Cons.prems have "?k acc (c # cs) = Some (gs, r)" by simp
    then obtain t where t: "c # cs = q @ t" "gs = F acc" "r = t"
      by (auto simp: lit_Some_iff)
    then have "(c # cs) @ y = q @ (t @ y)" by simp
    then have "?k acc ((c # cs) @ y) = Some (gs, r @ y)"
      using t by (simp only: lit_app)
    then show ?thesis by simp
  next
    case None
    with Cons.prems have pc: "P c" and rec: "lazy_star P ?k (acc @ [c]) cs = Some (gs, r)"
      by (auto split: if_splits)
    have len: "length q \<le> length cs"
      using lazy_star_SomeD [OF rec] by (auto simp: lit_Some_iff)
    have "?k acc (c # cs) = None" by (rule None)
    then have "?k acc ((c # cs) @ y) = None"
      by (rule lit_ext_None) (use len in auto)
    with pc Cons.IH [OF rec] show ?thesis by simp
  qed
qed


lemma lazy_star_acc:
  "lazy_star P (\<lambda>g. k (a @ g)) acc s = lazy_star P k (a @ acc) s"
  by (induction s arbitrary: acc) (auto split: option.splits)

lemma greedy_all: "greedy_star P (\<lambda>g r. Some (x, r)) acc s = Some (x, [])" if "\<And>c. P c"
  using that by (induction s arbitrary: acc) auto

lemma end_document_pat_eq:
  "end_document_pat s = (if starts_with (BS # ''end{document}'') s then Some ([], []) else None)"
  unfolding end_document_pat_def
  by (subst lit_eq) (simp add: greedy_all dot_all_def)

lemma section_pat_alt:
  "section_pat =
     lit (BS # ''section*{'')
       (lit ''['' (lazy_star dot (\<lambda>g. lit '']}'' (\<lambda>r. Some ([''['' @ g @ '']''], r))) []))"
proof -
  have "lit '']'' (lit ''}'' k) = lit '']}'' k" for k :: "(string list \<times> string) cont"
    using lit_append [of "'']''" "''}''" k] by auto
  then show ?thesis unfolding section_pat_def by simp
qed

lemma atomic_pat_alt:
  "atomic_pat =
     lit (BS # ''section*{'')
       (lit ''[atomic_'' (lazy_star dot (\<lambda>g. lit '']}'' (\<lambda>r. Some ([''[atomic_'' @ g @ '']''], r))) []))"
proof -
  have "lit '']'' (lit ''}'' k) = lit '']}'' k" for k :: "(string list \<times> string) cont"
    using lit_append [of "'']''" "''}''" k] by auto
  then show ?thesis unfolding atomic_pat_def by simp
qed

lemma section_pat_SomeD:
  assumes "section_pat s = Some (gs, r)"
  shows "\<exists>u. s = BS # ''section*{['' @ u @ '']}'' @ r \<and> gs = [''['' @ u @ '']'']"
proof -
  from assms obtain t where t: "s = BS # ''section*{['' @ t"
    and l: "lazy_star dot (\<lambda>g. lit '']}'' (\<lambda>r. Some ([''['' @ g @ '']''], r))) [] t = Some (gs, r)"
    unfolding section_pat_alt by (auto simp: lit_Some_iff)
  from lazy_star_SomeD [OF l] obtain u v where
    "t = u @ v" "lit '']}'' (\<lambda>r. Some ([''['' @ u @ '']''], r)) v = Some (gs, r)" by auto
  then have "t = u @ '']}'' @ r \<and> gs = [''['' @ u @ '']'']"
    by (auto simp: lit_Some_iff)
  with t show ?thesis by auto
qed

lemma section_pat_progress: "section_pat s = Some (gs, r) \<Longrightarrow> length r < length s"
  by (drule section_pat_SomeD) auto

lemma section_pat_groups: "section_pat s = Some (gs, r) \<Longrightarrow> length gs = 1"
  by (drule section_pat_SomeD) auto

lemma section_pat_ext:
  assumes "section_pat x = Some (gs, r)"
  shows "section_pat (x @ y) = Some (gs, r @ y)"
proof -
  from assms obtain t where t: "x = BS # ''section*{['' @ t"
    and l: "lazy_star dot (\<lambda>g. lit '']}'' (\<lambda>r. Some ([''['' @ g @ '']''], r))) [] t = Some (gs, r)"
    unfolding section_pat_alt by (auto simp: lit_Some_iff)
  have "lazy_star dot (\<lambda>g. lit '']}'' (\<lambda>r. Some ([''['' @ g @ '']''], r))) [] (t @ y) = Some (gs, r @ y)"
    using l by (rule lazy_lit_ext)
  then show ?thesis unfolding section_pat_alt t by simp
qed

lemma atomic_pat_section_pat:
  assumes "atomic_pat s = Some res"
  shows "section_pat s = Some res"
proof -
  let ?k1 = "\<lambda>g. lit '']}'' (\<lambda>r. Some ([''['' @ g @ '']''], r))"
  let ?k2 = "\<lambda>g. lit '']}'' (\<lambda>r. Some ([''[atomic_'' @ g @ '']''], r))"
  from assms obtain t where t: "s = BS # ''section*{[atomic_'' @ t"
    and l: "lazy_star dot ?k2 [] t = Some res"
    unfolding atomic_pat_alt by (auto simp: lit_Some_iff)
  have "lazy_star dot ?k2 [] t = lazy_star dot ?k1 (''atomic_'' @ []) t"
    using lazy_star_acc [of dot ?k1 "''atomic_''" "[]" t] by simp
  also have "\<dots> = lazy_star dot ?k1 [] (''atomic_'' @ t)"
    by (simp add: dot_def)
  finally have "lazy_star dot ?k1 [] (''atomic_'' @ t) = Some res" using l by simp
  then show ?thesis unfolding section_pat_alt t by simp
qed

lemma atomic_pat_groups: "atomic_pat s = Some (gs, r) \<Longrightarrow> length gs = 1"
  by (drule atomic_pat_section_pat) (rule section_pat_groups)

lemma atomic_pat_progress: "atomic_pat s = Some (gs, r) \<Longrightarrow> length r < length s"
  by (drule atomic_pat_section_pat) (rule section_pat_progress)

subsection \<open>The scan\<close>

lemma re_search_iff: "re_search m s \<longleftrightarrow> (\<exists>a b. s = a @ b \<and> m b \<noteq> None)"
proof (induction s)
  case Nil
  then show ?case by simp
next
  case (Cons c cs)
  show ?case
  proof
    assume "re_search m (c # cs)"
    then consider "m (c # cs) \<noteq> None" | "re_search m cs" by auto
    then show "\<exists>a b. c # cs = a @ b \<and> m b \<noteq> None"
    proof cases
      case 1
      then show ?thesis by (metis append_Nil)
    next
      case 2
      with Cons.IH obtain a b where "cs = a @ b" "m b \<noteq> None" by blast
      then have "c # cs = (c # a) @ b \<and> m b \<noteq> None" by simp
      then show ?thesis by blast
    qed
  next
    assume "\<exists>a b. c # cs = a @ b \<and> m b \<noteq> None"
    then obtain a b where ab: "c # cs = a @ b" "m b \<noteq> None" by blast
    show "re_search m (c # cs)"
    proof (cases a)
      case Nil
      with ab have "m (c # cs) \<noteq> None" by simp
      then show ?thesis by simp
    next
      case (Cons x xs)
      with ab have "cs = xs @ b" by simp
      with ab(2) Cons.IH show ?thesis by auto
    qed
  qed
qed

lemma re_scan_no_match: "\<not> re_search m s \<Longrightarrow> re_scan m acc s = ([], acc @ s)"
  by (induction s arbitrary: acc) (auto split: option.splits)

lemma re_scan_groups:
  "(pre, gs) \<in> set (fst (re_scan m acc s)) \<Longrightarrow> \<exists>x r. m x = Some (gs, r)"
proof (induction m acc s rule: re_scan.induct)
  case (1 m acc)
  then show ?case by simp
next
  case (2 m acc c cs)
  show ?case
  proof (cases "m (c # cs)")
    case None
    with 2 show ?thesis by simp
  next
    case (Some a)
    obtain g r where a: "a = (g, r)" by (cases a)
    show ?thesis
    proof (cases "length r \<le> length cs")
      case True
      obtain ms t where sc: "re_scan m [] r = (ms, t)" by (cases "re_scan m [] r")
      from "2.prems" Some a True sc have "(pre, gs) = (acc, g) \<or> (pre, gs) \<in> set ms"
        by simp
      then show ?thesis
      proof
        assume "(pre, gs) = (acc, g)"
        with Some a show ?thesis by auto
      next
        assume "(pre, gs) \<in> set ms"
        with "2.IH"(2) [OF Some a [symmetric] True] sc show ?thesis by simp
      qed
    next
      case False
      with 2 Some a show ?thesis by simp
    qed
  qed
qed


lemma no_search_of_context:
  assumes stab: "\<And>x y res. m x = Some res \<Longrightarrow> m (x @ y) \<noteq> None"
    and prog: "\<And>x gs r. m x = Some (gs, r) \<Longrightarrow> length r < length x"
    and inv: "\<And>a b. x = a @ b \<Longrightarrow> b \<noteq> [] \<Longrightarrow> m (b @ s) = None"
  shows "\<not> re_search m x"
proof
  assume "re_search m x"
  then obtain a b where ab: "x = a @ b" and mb: "m b \<noteq> None"
    by (auto simp: re_search_iff)
  from mb obtain gs r where some: "m b = Some (gs, r)" by auto
  from prog [OF some] have "b \<noteq> []" by auto
  from inv [OF ab this] have "m (b @ s) = None" .
  with stab [OF some, of s] show False by simp
qed

lemma re_scan_clean:
  "(\<And>x y res. m x = Some res \<Longrightarrow> m (x @ y) \<noteq> None) \<Longrightarrow>
   (\<And>x gs r. m x = Some (gs, r) \<Longrightarrow> length r < length x) \<Longrightarrow>
   (\<And>a b. acc = a @ b \<Longrightarrow> b \<noteq> [] \<Longrightarrow> m (b @ s) = None) \<Longrightarrow>
   re_scan m acc s = (ms, t) \<Longrightarrow>
   (\<forall>(pre, gs)\<in>set ms. \<not> re_search m pre) \<and> \<not> re_search m t"
proof (induction m acc s arbitrary: ms t rule: re_scan.induct)
  case (1 m acc)
  from "1.prems"(4) have ms: "ms = []" and t: "t = acc" by auto
  have "\<not> re_search m acc"
    using "1.prems"(1,2,3) by (rule no_search_of_context)
  with ms t show ?case by simp
next
  case (2 m acc c cs)
  note stab = "2.prems"(1) and prog = "2.prems"(2)
  show ?case
  proof (cases "m (c # cs)")
    case None
    have inv': "m (b @ cs) = None" if "acc @ [c] = a @ b" "b \<noteq> []" for a b
    proof (cases "b = [c]")
      case True
      with None show ?thesis by simp
    next
      case False
      with that obtain b' where b: "b = b' @ [c]" and b': "b' \<noteq> []"
        by (metis append_butlast_last_id append_self_conv2 last_appendR last_snoc)
      with that have "acc = a @ b'" by simp
      from "2.prems"(3) [OF this b'] show ?thesis by (simp add: b)
    qed
    from "2.prems"(4) None have sc: "re_scan m (acc @ [c]) cs = (ms, t)" by simp
    show ?thesis
    proof (rule "2.IH"(1) [OF None])
      show "\<And>x y res. m x = Some res \<Longrightarrow> m (x @ y) \<noteq> None" by (rule stab)
      show "\<And>x gs r. m x = Some (gs, r) \<Longrightarrow> length r < length x" by (rule prog)
      show "\<And>a b. acc @ [c] = a @ b \<Longrightarrow> b \<noteq> [] \<Longrightarrow> m (b @ cs) = None" by (rule inv')
      show "re_scan m (acc @ [c]) cs = (ms, t)" by (rule sc)
    qed
  next
    case (Some res)
    obtain g r where res: "res = (g, r)" by (cases res)
    from prog [OF Some [unfolded res]] have le: "length r \<le> length cs" by simp
    obtain ms' t' where sc: "re_scan m [] r = (ms', t')" by (cases "re_scan m [] r")
    from "2.prems"(4) Some res le sc have ms: "ms = (acc, g) # ms'" and t: "t = t'"
      by auto
    have clean': "(\<forall>(pre, gs)\<in>set ms'. \<not> re_search m pre) \<and> \<not> re_search m t'"
    proof (rule "2.IH"(2) [OF Some res [symmetric] le])
      show "\<And>x y res. m x = Some res \<Longrightarrow> m (x @ y) \<noteq> None" by (rule stab)
      show "\<And>x gs r. m x = Some (gs, r) \<Longrightarrow> length r < length x" by (rule prog)
      show "\<And>a b. [] = a @ b \<Longrightarrow> b \<noteq> [] \<Longrightarrow> m (b @ r) = None" by simp
      show "re_scan m [] r = (ms', t')" by (rule sc)
    qed
    have "\<not> re_search m acc"
      using stab prog "2.prems"(3) by (rule no_search_of_context)
    with clean' ms t show ?thesis by simp
  qed
qed

section \<open>The macro substitutions\<close>

lemma literal_pat_groups: "literal_pat p x = Some (gs, r) \<Longrightarrow> gs = []"
  by (auto simp: literal_pat_def lit_Some_iff)

lemma re_sub_literal:
  "re_sub (literal_pat p) tmpl s = str_replace p (expand_template tmpl []) s"
proof -
  obtain ms t where sc: "re_scan (literal_pat p) [] s = (ms, t)"
    by (cases "re_scan (literal_pat p) [] s")
  have "gs = []" if "(pre, gs) \<in> set ms" for pre gs
  proof -
    from that sc have "(pre, gs) \<in> set (fst (re_scan (literal_pat p) [] s))" by simp
    from re_scan_groups [OF this] show ?thesis by (auto dest: literal_pat_groups)
  qed
  then have "map (\<lambda>(pre, gs). pre @ expand_template tmpl gs) ms =
             map (\<lambda>(pre, gs). pre @ expand_template tmpl []) ms"
    by (intro map_cong) auto
  then have "concat (map (\<lambda>(pre, gs). pre @ expand_template tmpl gs) ms) =
             concat (map (\<lambda>(pre, gs). pre @ expand_template tmpl []) ms)"
    by (rule arg_cong)
  with sc show ?thesis
    by (simp add: re_sub_def re_subn_def re_subn_fn_def str_replace_def re_sub_fn_def
        literal_pat_def [symmetric])
qed

lemma perform_substitutions_example:
  "perform_substitutions (BS # ''frac{1}{2} '' @ [BS, BS] @ '' '' @ BS # ''theta'') =
     [BS, BS] @ ''frac{1}{2} '' @ BS # ''newline '' @ [BS, BS] @ ''theta''"
  by code_simp

text \<open>
  C3. \<open>perform_substitutions\<close> is the seven literal replacements, each made once over
  the whole text and applied to the result of the one before: a doubled backslash
  becomes \<open>\newline\<close>, then \<open>\frac\<close>, \<open>\right\<close>, \<open>\rfloor\<close>, \<open>\begin\<close> and \<open>\theta\<close> get a
  second backslash, then \<open>\_\<close> becomes \<open>_\<close>. On the text \<open>\frac{1}{2} \\ \theta\<close> the
  result is \<open>\\frac{1}{2} \newline \\theta\<close>.
\<close>

theorem perform_substitutions_in_order:
  "perform_substitutions t =
     str_replace (BS # ''_'') ''_''
       (str_replace (BS # ''theta'') ([BS, BS] @ ''theta'')
         (str_replace (BS # ''begin'') ([BS, BS] @ ''begin'')
           (str_replace (BS # ''rfloor'') ([BS, BS] @ ''rfloor'')
             (str_replace (BS # ''right'') ([BS, BS] @ ''right'')
               (str_replace (BS # ''frac'') ([BS, BS] @ ''frac'')
                 (str_replace [BS, BS] (BS # ''newline'') t))))))
   \<and> perform_substitutions (BS # ''frac{1}{2} '' @ [BS, BS] @ '' '' @ BS # ''theta'') =
     [BS, BS] @ ''frac{1}{2} '' @ BS # ''newline '' @ [BS, BS] @ ''theta''"
  using perform_substitutions_example
  by (simp add: perform_substitutions_def substitutions_def re_sub_literal)

theorem perform_substitutions_in_order_witness:
  "perform_substitutions (BS # ''frac{1}{2} '' @ [BS, BS] @ '' '' @ BS # ''theta'') =
     [BS, BS] @ ''frac{1}{2} '' @ BS # ''newline '' @ [BS, BS] @ ''theta''"
  using perform_substitutions_in_order [of "[]"] by (rule conjunct2)

section \<open>The end of the document and the final cleanup\<close>

subsection \<open>Literal patterns and the end of the document\<close>

lemma literal_pat_eq:
  "literal_pat p s = (if starts_with p s then Some ([], drop (length p) s) else None)"
  by (simp add: literal_pat_def lit_eq)

lemma re_search_literal: "re_search (literal_pat p) s = contains p s"
  by (induction s) (auto simp: literal_pat_eq starts_with_iff)

lemma re_search_end_document: "re_search end_document_pat s = contains (BS # ''end{document}'') s"
  by (induction s) (auto simp: end_document_pat_eq)

lemma end_document_pat_stable: "end_document_pat x = Some res \<Longrightarrow> end_document_pat (x @ y) \<noteq> None"
  by (auto simp: end_document_pat_eq starts_with_iff split: if_splits)

lemma end_document_pat_progress: "end_document_pat x = Some (gs, r) \<Longrightarrow> length r < length x"
  by (auto simp: end_document_pat_eq starts_with_iff split: if_splits)

lemma re_scan_end_document:
  "re_scan end_document_pat acc s = (ms, t) \<Longrightarrow>
     (ms = [] \<and> t = acc @ s) \<or> (\<exists>pre b. ms = [(pre, [])] \<and> t = [] \<and> acc @ s = pre @ b)"
proof (induction s arbitrary: acc)
  case Nil
  then show ?case by simp
next
  case (Cons c cs)
  show ?case
  proof (cases "starts_with (BS # ''end{document}'') (c # cs)")
    case True
    then have "end_document_pat (c # cs) = Some ([], [])"
      by (simp only: end_document_pat_eq if_True)
    with Cons.prems have "ms = [(acc, [])] \<and> t = [] \<and> acc @ c # cs = acc @ (c # cs)"
      by auto
    then show ?thesis by blast
  next
    case False
    then have "end_document_pat (c # cs) = None"
      by (simp only: end_document_pat_eq if_False)
    with Cons.prems have "re_scan end_document_pat (acc @ [c]) cs = (ms, t)"
      by simp
    from Cons.IH [OF this] show ?thesis by auto
  qed
qed

lemma remove_end_document_cases:
  obtains (unchanged) "remove_end_document s = s" "re_scan end_document_pat [] s = ([], s)"
  | (cut) pre b where "remove_end_document s = pre" "s = pre @ b"
      "re_scan end_document_pat [] s = ([(pre, [])], [])"
proof -
  obtain ms t where sc: "re_scan end_document_pat [] s = (ms, t)"
    by (cases "re_scan end_document_pat [] s")
  from re_scan_end_document [OF sc]
  consider "ms = []" "t = s" | pre b where "ms = [(pre, [])]" "t = []" "s = pre @ b"
    by auto
  then show thesis
  proof cases
    case 1
    with sc have "remove_end_document s = s"
      by (simp add: remove_end_document_def re_sub_def re_subn_def re_subn_fn_def)
    with 1 sc show ?thesis by (intro unchanged) simp_all
  next
    case 2
    with sc have "remove_end_document s = pre"
      by (simp add: remove_end_document_def re_sub_def re_subn_def re_subn_fn_def)
    with 2 sc show ?thesis by (intro cut) simp_all
  qed
qed

lemma remove_end_document_prefix: "\<exists>b. s = remove_end_document s @ b"
  by (cases s rule: remove_end_document_cases) auto

lemma remove_end_document_clean: "\<not> re_search end_document_pat (remove_end_document s)"
proof -
  obtain ms t where sc: "re_scan end_document_pat [] s = (ms, t)"
    by (cases "re_scan end_document_pat [] s")
  have clean: "(\<forall>(pre, gs)\<in>set ms. \<not> re_search end_document_pat pre) \<and> \<not> re_search end_document_pat t"
  proof (rule re_scan_clean [where acc = "[]" and s = s])
    show "\<And>x y res. end_document_pat x = Some res \<Longrightarrow> end_document_pat (x @ y) \<noteq> None"
      by (rule end_document_pat_stable)
    show "\<And>x gs r. end_document_pat x = Some (gs, r) \<Longrightarrow> length r < length x"
      by (rule end_document_pat_progress)
    show "\<And>a b. [] = a @ b \<Longrightarrow> b \<noteq> [] \<Longrightarrow> end_document_pat (b @ s) = None" by simp
    show "re_scan end_document_pat [] s = (ms, t)" by (rule sc)
  qed
  show ?thesis
  proof (cases s rule: remove_end_document_cases)
    case unchanged
    with sc clean show ?thesis by simp
  next
    case (cut pre b)
    with sc clean show ?thesis by simp
  qed
qed

lemma remove_end_document_id: "\<not> re_search end_document_pat s \<Longrightarrow> remove_end_document s = s"
  by (simp add: remove_end_document_def re_sub_def re_subn_def re_subn_fn_def re_scan_no_match)

lemma remove_end_document_idem: "remove_end_document (remove_end_document s) = remove_end_document s"
  by (rule remove_end_document_id) (rule remove_end_document_clean)

lemma remove_end_document_length: "length (remove_end_document s) \<le> length s"
  using remove_end_document_prefix [of s] by (metis length_append le_add1)

lemma str_replace_id: "\<not> contains old s \<Longrightarrow> str_replace old new s = s"
  by (simp add: str_replace_def re_sub_fn_def re_subn_fn_def literal_pat_def [symmetric]
      re_scan_no_match re_search_literal)

subsection \<open>Lengths\<close>

lemma re_scan_length:
  "(\<And>x gs r. m x = Some (gs, r) \<Longrightarrow> length r + n \<le> length x) \<Longrightarrow>
   re_scan m acc s = (ms, t) \<Longrightarrow>
   sum_list (map (\<lambda>(pre, gs). length pre + n) ms) + length t \<le> length acc + length s"
proof (induction m acc s arbitrary: ms t rule: re_scan.induct)
  case (1 m acc)
  then show ?case by simp
next
  case (2 m acc c cs)
  note cons = "2.prems"(1)
  show ?case
  proof (cases "m (c # cs)")
    case None
    with "2.prems"(2) have sc: "re_scan m (acc @ [c]) cs = (ms, t)" by simp
    have "sum_list (map (\<lambda>(pre, gs). length pre + n) ms) + length t \<le> length (acc @ [c]) + length cs"
    proof (rule "2.IH"(1) [OF None])
      show "\<And>x gs r. m x = Some (gs, r) \<Longrightarrow> length r + n \<le> length x" by (rule cons)
      show "re_scan m (acc @ [c]) cs = (ms, t)" by (rule sc)
    qed
    then show ?thesis by simp
  next
    case (Some res)
    obtain g r where res: "res = (g, r)" by (cases res)
    from cons [OF Some [unfolded res]] have len: "length r + n \<le> Suc (length cs)" by simp
    show ?thesis
    proof (cases "length r \<le> length cs")
      case True
      obtain ms' t' where sc: "re_scan m [] r = (ms', t')" by (cases "re_scan m [] r")
      from "2.prems"(2) Some res True sc have ms: "ms = (acc, g) # ms'" and t: "t = t'"
        by auto
      have "sum_list (map (\<lambda>(pre, gs). length pre + n) ms') + length t' \<le> length ([]::string) + length r"
      proof (rule "2.IH"(2) [OF Some res [symmetric] True])
        show "\<And>x gs r. m x = Some (gs, r) \<Longrightarrow> length r + n \<le> length x" by (rule cons)
        show "re_scan m [] r = (ms', t')" by (rule sc)
      qed
      with len ms t show ?thesis by simp
    next
      case False
      with "2.prems"(2) Some res have sc: "re_scan m (acc @ [c]) cs = (ms, t)" by simp
      have "sum_list (map (\<lambda>(pre, gs). length pre + n) ms) + length t \<le> length (acc @ [c]) + length cs"
      proof (rule "2.IH"(3) [OF Some res [symmetric] False])
        show "\<And>x gs r. m x = Some (gs, r) \<Longrightarrow> length r + n \<le> length x" by (rule cons)
        show "re_scan m (acc @ [c]) cs = (ms, t)" by (rule sc)
      qed
      then show ?thesis by simp
    qed
  qed
qed

lemma re_scan_finds:
  "(\<And>x gs r. m x = Some (gs, r) \<Longrightarrow> length r < length x) \<Longrightarrow> re_search m s \<Longrightarrow>
   fst (re_scan m acc s) \<noteq> []"
proof (induction s arbitrary: acc)
  case Nil
  from Nil(2) obtain g r where "m [] = Some (g, r)" by auto
  from Nil(1) [OF this] show ?case by simp
next
  case (Cons c cs)
  show ?case
  proof (cases "m (c # cs)")
    case None
    with Cons.prems(2) have "re_search m cs" by simp
    from Cons.IH [OF Cons.prems(1) this] None show ?thesis by simp
  next
    case (Some res)
    obtain g r where res: "res = (g, r)" by (cases res)
    from Cons.prems(1) [OF Some [unfolded res]] have "length r \<le> length cs" by simp
    with Some res show ?thesis by (simp split: prod.splits)
  qed
qed

lemma sum_list_plus2:
  "sum_list (map (\<lambda>(pre, gs). length pre + 2) ms) =
   sum_list (map (\<lambda>(pre, gs). length pre + 1) ms) + length ms"
  by (induction ms) auto

lemma length_str_replace:
  assumes "re_scan (literal_pat old) [] s = (ms, t)"
  shows "length (str_replace old new s) =
         sum_list (map (\<lambda>(pre, gs). length pre + length new) ms) + length t"
proof -
  have "length (concat (map (\<lambda>(pre, gs). pre @ new) ms)) =
        sum_list (map (\<lambda>(pre, gs). length pre + length new) ms)"
    by (induction ms) auto
  with assms show ?thesis
    by (simp add: str_replace_def re_sub_fn_def re_subn_fn_def literal_pat_def [symmetric])
qed

lemma collapse_shorter:
  assumes "contains [BS, BS] s"
  shows "length (str_replace [BS, BS] [BS] s) < length s"
proof -
  obtain ms t where sc: "re_scan (literal_pat [BS, BS]) [] s = (ms, t)"
    by (cases "re_scan (literal_pat [BS, BS]) [] s")
  have cons: "length r + 2 \<le> length x" if "literal_pat [BS, BS] x = Some (gs, r)" for x gs r
    using that by (auto simp: literal_pat_eq starts_with_iff split: if_splits)
  have "fst (re_scan (literal_pat [BS, BS]) [] s) \<noteq> []"
  proof (rule re_scan_finds)
    show "\<And>x gs r. literal_pat [BS, BS] x = Some (gs, r) \<Longrightarrow> length r < length x"
      using cons by fastforce
    show "re_search (literal_pat [BS, BS]) s"
      using assms by (simp add: re_search_literal)
  qed
  with sc have ne: "0 < length ms" by simp
  have "sum_list (map (\<lambda>(pre, gs). length pre + 2) ms) + length t \<le> length ([]::string) + length s"
    by (rule re_scan_length [OF cons sc])
  then have le: "sum_list (map (\<lambda>(pre, gs). length pre + 1) ms) + length ms + length t \<le> length s"
    unfolding sum_list_plus2 by simp
  have "length (str_replace [BS, BS] [BS] s) =
        sum_list (map (\<lambda>(pre, gs). length pre + length [BS]) ms) + length t"
    by (rule length_str_replace [OF sc])
  also have "length [BS] = 1" by simp
  finally have "length (str_replace [BS, BS] [BS] s) =
        sum_list (map (\<lambda>(pre, gs). length pre + 1) ms) + length t" .
  with le ne show ?thesis by linarith
qed

lemma cleanup_text_example:
  "cleanup_text (cleanup_text [BS, BS, BS, BS]) = [BS] \<and> cleanup_text [BS, BS, BS, BS] = [BS, BS]"
  by code_simp

text \<open>
  C7, as stated, fails: the cleanup of four backslashes is two backslashes, and the
  cleanup of these is one.
\<close>

theorem cleanup_text_not_idempotent:
  "cleanup_text (cleanup_text [BS, BS, BS, BS]) \<noteq> cleanup_text [BS, BS, BS, BS]"
  by code_simp

text \<open>
  C7, amended. Cutting a text at the first end of document is idempotent, and a second
  cleanup pass (collapse the doubled backslashes, then cut) leaves the result of the
  first unchanged exactly when that result holds no doubled backslash.
\<close>

theorem cleanup_text_twice:
  "remove_end_document (remove_end_document t) = remove_end_document t \<and>
   (cleanup_text (cleanup_text t) = cleanup_text t \<longleftrightarrow> \<not> contains [BS, BS] (cleanup_text t))"
proof -
  let ?c = "cleanup_text t"
  have clean: "remove_end_document ?c = ?c"
    unfolding cleanup_text_def by (rule remove_end_document_idem)
  have "cleanup_text ?c = ?c" if "\<not> contains [BS, BS] ?c"
  proof -
    from that have "str_replace [BS, BS] [BS] ?c = ?c" by (rule str_replace_id)
    then have "cleanup_text ?c = remove_end_document ?c"
      by (simp add: cleanup_text_def [of ?c])
    with clean show ?thesis by simp
  qed
  moreover have "cleanup_text ?c \<noteq> ?c" if "contains [BS, BS] ?c"
  proof -
    have "length (cleanup_text ?c) \<le> length (str_replace [BS, BS] [BS] ?c)"
      unfolding cleanup_text_def [of ?c] by (rule remove_end_document_length)
    also have "\<dots> < length ?c" using that by (rule collapse_shorter)
    finally show ?thesis by auto
  qed
  ultimately show ?thesis using remove_end_document_idem by blast
qed

theorem cleanup_text_twice_witness:
  "cleanup_text (cleanup_text ([BS, BS] @ ''frac'')) = cleanup_text ([BS, BS] @ ''frac'')"
proof -
  have "\<not> contains [BS, BS] (cleanup_text ([BS, BS] @ ''frac''))" by code_simp
  with cleanup_text_twice [of "[BS, BS] @ ''frac''"] show ?thesis by blast
qed

section \<open>The delimiter guard\<close>

lemma escape_example:
  "escape_latex_delimiters_in_notebook
     \<lparr>cells = [markdown_cell [BS, CHR ''(''] ''c''], provenance = [], nbformat = 4, nbformat_minor = 5\<rparr>
   = \<lparr>cells = [markdown_cell [BS, BS, CHR ''(''] ''c''], provenance = [], nbformat = 4, nbformat_minor = 5\<rparr>"
  by code_simp

text \<open>
  C6, as stated, fails: a cell whose text is \<open>\(\<close> comes back with the text \<open>\\(\<close>.
\<close>

theorem escape_latex_delimiters_changes_text:
  "escape_latex_delimiters_in_notebook
     \<lparr>cells = [markdown_cell [BS, CHR ''(''] ''c''], provenance = [], nbformat = 4, nbformat_minor = 5\<rparr>
   \<noteq> \<lparr>cells = [markdown_cell [BS, CHR ''(''] ''c''], provenance = [], nbformat = 4, nbformat_minor = 5\<rparr>"
  unfolding escape_example by (simp add: markdown_cell_def)

text \<open>
  C6, amended. In every source text of every markdown cell, each of the four
  substitutions puts one more backslash before its delimiter: \<open>\(\<close> becomes \<open>\\(\<close>,
  then \<open>\)\<close> becomes \<open>\\)\<close>, \<open>\[\<close> becomes \<open>\\[\<close> and \<open>\]\<close> becomes \<open>\\]\<close>; nothing else
  of the notebook changes.
\<close>

theorem escape_latex_delimiters_adds_backslash:
  "escape_latex_delimiters_in_notebook nb =
     nb\<lparr>cells :=
          map (\<lambda>c. if cell_type c = ''markdown''
                    then c\<lparr>source :=
                            map (\<lambda>text.
                                   str_replace [BS, CHR '']''] [BS, BS, CHR '']'']
                                     (str_replace [BS, CHR ''[''] [BS, BS, CHR ''['']
                                       (str_replace [BS, CHR '')''] [BS, BS, CHR '')'']
                                         (str_replace [BS, CHR ''(''] [BS, BS, CHR ''(''] text))))
                                (source c)\<rparr>
                    else c)
              (cells nb)\<rparr>"
  by (simp add: escape_latex_delimiters_in_notebook_def delimiter_subs_def re_sub_literal)

theorem escape_latex_delimiters_adds_backslash_witness:
  "escape_latex_delimiters_in_notebook
     \<lparr>cells = [markdown_cell (''a '' @ BS # ''(x'' @ BS # '') b'') ''c''],
      provenance = [], nbformat = 4, nbformat_minor = 5\<rparr>
   = \<lparr>cells = [markdown_cell (''a '' @ [BS, BS] @ ''(x'' @ [BS, BS] @ '') b'') ''c''],
      provenance = [], nbformat = 4, nbformat_minor = 5\<rparr>"
proof -
  have "str_replace [BS, CHR '']''] [BS, BS, CHR '']'']
          (str_replace [BS, CHR ''[''] [BS, BS, CHR ''['']
            (str_replace [BS, CHR '')''] [BS, BS, CHR '')'']
              (str_replace [BS, CHR ''(''] [BS, BS, CHR ''(''] (''a '' @ BS # ''(x'' @ BS # '') b''))))
        = ''a '' @ [BS, BS] @ ''(x'' @ [BS, BS] @ '') b''"
    by code_simp
  then show ?thesis
    using escape_latex_delimiters_adds_backslash
      [of "\<lparr>cells = [markdown_cell (''a '' @ BS # ''(x'' @ BS # '') b'') ''c''],
             provenance = [], nbformat = 4, nbformat_minor = 5\<rparr>"]
    by (simp add: markdown_cell_def)
qed

section \<open>The delimiter converter\<close>

lemma re_scan_Nil: "re_scan m acc s = ([], t) \<Longrightarrow> t = acc @ s"
proof (induction m acc s rule: re_scan.induct)
  case (1 m acc)
  then show ?case by simp
next
  case (2 m acc c cs)
  show ?case
  proof (cases "m (c # cs)")
    case None
    with "2.prems" have "re_scan m (acc @ [c]) cs = ([], t)" by simp
    from "2.IH"(1) [OF None this] show ?thesis by simp
  next
    case (Some res)
    obtain g r where res: "res = (g, r)" by (cases res)
    show ?thesis
    proof (cases "length r \<le> length cs")
      case True
      with "2.prems" Some res have False by (simp split: prod.splits)
      then show ?thesis ..
    next
      case False
      with "2.prems" Some res have "re_scan m (acc @ [c]) cs = ([], t)" by simp
      from "2.IH"(3) [OF Some res [symmetric] False this] show ?thesis by simp
    qed
  qed
qed

lemma re_subn_zero: "snd (re_subn m repl s) = 0 \<Longrightarrow> fst (re_subn m repl s) = s"
  by (auto simp: re_subn_def re_subn_fn_def split: prod.splits dest: re_scan_Nil)

lemma convert_and_count_eq:
  "convert_and_count m repl (st_of tn) = st_of (apply_pass tn (m, repl))"
proof (cases "re_subn m repl (fst tn)")
  case (Pair new_text count)
  show ?thesis
  proof (cases "count = 0")
    case True
    with Pair re_subn_zero [of m repl "fst tn"] have "new_text = fst tn" by simp
    with Pair True show ?thesis
      by (simp add: convert_and_count_def st_of_def apply_pass_def)
  next
    case False
    with Pair show ?thesis
      by (simp add: convert_and_count_def st_of_def apply_pass_def)
  qed
qed

lemma foldl_convert_and_count:
  "foldl (\<lambda>st env. convert_and_count (f env) repl st) (st_of tn) envs =
     st_of (foldl apply_pass tn (map (\<lambda>env. (f env, repl)) envs))"
  by (induction envs arbitrary: tn) (simp_all add: convert_and_count_eq)

lemma convert_latex_delimiters_passes:
  "convert_latex_delimiters text = foldl apply_pass (text, 0) passes"
proof -
  have init: "\<lparr>current_text = text, conversion_count = 0\<rparr> = st_of (text, 0)"
    by (simp add: st_of_def)
  have out: "(current_text (st_of tn), conversion_count (st_of tn)) = tn" for tn
    by (simp add: st_of_def)
  show ?thesis
    unfolding convert_latex_delimiters_def Let_def init convert_and_count_eq
      foldl_convert_and_count out passes_def
    by simp
qed

lemma convert_latex_delimiters_example:
  "convert_latex_delimiters
     (''Text '' @ BS # ''[ x+y '' @ BS # ''] more '' @ BS # ''(a'' @ BS # '') end'') =
   (''Text $$ x+y $$ more $a$ end'', 2)"
  by code_simp

text \<open>
  C2. The passes run in the listed order on the running text and the count is the sum
  of their matches (\<open>convert_latex_delimiters_passes\<close>), and the example of the
  specification holds (\<open>convert_latex_delimiters_example\<close>). But the pass of a starred
  name does not convert the starred environment: the name is pasted into the pattern
  unescaped, so \<open>equation*\<close> there means \<open>equatio\<close> and any number of \<open>n\<close>. The text
  \<open>\begin{equation*}x\end{equation*}\<close> comes back unchanged with the count 0.
\<close>

theorem convert_latex_delimiters_starred_unchanged:
  "convert_latex_delimiters (BS # ''begin{equation*}x'' @ BS # ''end{equation*}'') =
     (BS # ''begin{equation*}x'' @ BS # ''end{equation*}'', 0)"
  by code_simp

lemma convert_latex_delimiters_unstarred:
  "convert_latex_delimiters (BS # ''begin{equation}x'' @ BS # ''end{equation}'') = (''$$x$$'', 1)"
  by code_simp

section \<open>The example of the specification\<close>

lemma structured_notebook_example:
  "structured_notebook spec_example_text =
     Inr \<lparr>cells =
            [markdown_cell metadata_text ''metadata_cell'',
             markdown_cell ''---'' ''separator_before_[SECTION_01]'',
             markdown_cell (''**[SECTION_01]**'' @ [NL, NL] @ ''Hello'') ''section_1'',
             markdown_cell (''**[atomic_a]**'' @ [NL, NL] @ ''foo'' @ [NL] @ ''bar'') ''section_3'',
             markdown_cell ''---'' ''final_separator''],
          provenance = [], nbformat = 4, nbformat_minor = 5\<rparr>"
  by code_simp

text \<open>
  C1, as stated, fails: the source texts of the five cells are not the metadata text,
  a divider, the title \<open>**[SECTION_01]**\<close> with an empty body, the title \<open>**[atomic_a]**\<close>
  with the body of \<open>foo\<close> and \<open>bar\<close> each followed by two blanks and a line feed, and a
  divider.
\<close>

theorem structured_notebook_example_differs:
  "(case structured_notebook spec_example_text of
      Inl e \<Rightarrow> []
    | Inr nb \<Rightarrow> map source (cells nb)) \<noteq>
   [[metadata_text], [''---''], [''**[SECTION_01]**'' @ [NL, NL]],
    [''**[atomic_a]**'' @ [NL, NL] @ ''foo  '' @ [NL] @ ''bar  '' @ [NL]], [''---'']]"
  unfolding structured_notebook_example by (simp add: markdown_cell_def)

text \<open>
  C1, amended. For the example text the document has five cells, in this order: the
  metadata cell; the divider with the id \<open>separator_before_[SECTION_01]\<close>; the cell
  \<open>section_1\<close> with the title \<open>**[SECTION_01]**\<close>, a blank line and the body \<open>Hello\<close>; a
  cell whose text starts with the title \<open>**[atomic_a]**\<close> and a blank line; the divider
  \<open>final_separator\<close>.
\<close>

theorem structured_notebook_example_cells:
  "(case structured_notebook spec_example_text of
      Inl e \<Rightarrow> False
    | Inr nb \<Rightarrow>
        length (cells nb) = 5 \<and>
        cells nb ! 0 = markdown_cell metadata_text ''metadata_cell'' \<and>
        cells nb ! 1 = markdown_cell ''---'' ''separator_before_[SECTION_01]'' \<and>
        cells nb ! 2 = markdown_cell (''**[SECTION_01]**'' @ [NL, NL] @ ''Hello'') ''section_1'' \<and>
        starts_with (''**[atomic_a]**'' @ [NL, NL]) (concat (source (cells nb ! 3))) \<and>
        cells nb ! 4 = markdown_cell ''---'' ''final_separator'')"
  unfolding structured_notebook_example by (simp add: markdown_cell_def)

section \<open>The split into sections and the two iterations\<close>

subsection \<open>The list that a split returns\<close>

lemma concat_pairs_length:
  "(\<forall>(pre, gs)\<in>set ms. length gs = 1) \<Longrightarrow>
   length (concat (map (\<lambda>(pre, gs). pre # gs) ms)) = 2 * length ms"
  by (induction ms) auto

lemma re_split_odd:
  assumes "\<And>x gs r. m x = Some (gs, r) \<Longrightarrow> length gs = 1"
  shows "odd (length (re_split m s))"
proof -
  obtain ms t where sc: "re_scan m [] s = (ms, t)" by (cases "re_scan m [] s")
  have "length gs = 1" if "(pre, gs) \<in> set ms" for pre gs
  proof -
    from that sc have "(pre, gs) \<in> set (fst (re_scan m [] s))" by simp
    from re_scan_groups [OF this] assms show ?thesis by blast
  qed
  then have "\<forall>(pre, gs)\<in>set ms. length gs = 1" by auto
  from concat_pairs_length [OF this] sc show ?thesis
    by (simp add: re_split_def)
qed

lemma split_even_elems:
  "(\<forall>(pre, gs)\<in>set ms. length gs = 1 \<and> P pre) \<Longrightarrow> P t \<Longrightarrow> even k \<Longrightarrow>
   k < length (concat (map (\<lambda>(pre, gs). pre # gs) ms) @ [t]) \<Longrightarrow>
   P ((concat (map (\<lambda>(pre, gs). pre # gs) ms) @ [t]) ! k)"
proof (induction ms arbitrary: k)
  case Nil
  then show ?case by simp
next
  case (Cons a ms)
  obtain pre gs where a: "a = (pre, gs)" by (cases a)
  with Cons.prems(1) obtain g where gs: "gs = [g]" and pre: "P pre"
    by (cases gs) auto
  let ?rest = "concat (map (\<lambda>(pre, gs). pre # gs) ms) @ [t]"
  have list: "concat (map (\<lambda>(pre, gs). pre # gs) (a # ms)) @ [t] = pre # g # ?rest"
    by (simp add: a gs)
  show ?case
  proof (cases "k = 0")
    case True
    with pre list show ?thesis by simp
  next
    case False
    with Cons.prems(3) obtain k' where k: "k = Suc (Suc k')" and ev: "even k'"
      by (cases k; cases "k - 1") auto
    from Cons.prems(4) have "k' < length ?rest" unfolding list k by simp
    with Cons.IH [of k'] Cons.prems(1,2) ev have "P (?rest ! k')" by simp
    then show ?thesis unfolding list k by simp
  qed
qed

subsection \<open>The iteration over the pairs\<close>

lemma filter_odd_step:
  "odd j \<Longrightarrow> j + 1 < n \<Longrightarrow> filter odd [j..<n] = j # filter odd [j + 2..<n]"
  by (simp add: upt_conv_Cons)

lemma odd_next: "odd (n::nat) \<Longrightarrow> odd j \<Longrightarrow> j < n \<Longrightarrow> j + 1 < n"
  by (metis Suc_eq_plus1 Suc_lessI even_Suc)

lemma atomic_loop_odd:
  "odd (length parts) \<Longrightarrow> odd j \<Longrightarrow>
   atomic_loop parts i j cs =
     Inr (cs @ map (\<lambda>k. atomic_cell i k (parts ! k) (parts ! (k + 1)))
                   (filter odd [j..<length parts]))"
proof (induction parts i j cs rule: atomic_loop.induct)
  case (1 parts i j cs)
  show ?case
  proof (cases "j < length parts")
    case True
    with "1.prems" have nxt: "j + 1 < length parts" by (intro odd_next)
    from "1.prems" have "odd (j + 2)" by simp
    from "1.IH" [OF True nxt "1.prems"(1) this] True nxt
    show ?thesis
      by (subst atomic_loop.simps) (simp add: filter_odd_step [OF "1.prems"(2) nxt])
  next
    case False
    then show ?thesis by (subst atomic_loop.simps) simp
  qed
qed

lemma section_body_plain:
  assumes "\<not> re_search atomic_pat (section_content t raw)"
  shows "section_body i t raw =
           Inr (divider_cells i t @ [section_cell i t (section_content t raw)])"
proof -
  from assms have "re_split atomic_pat (section_content t raw) = [section_content t raw]"
    by (simp add: re_split_def re_scan_no_match)
  then show ?thesis by (simp add: section_body_def)
qed

lemma section_body_cells:
  "section_body i t raw =
     Inr (divider_cells i t @ [section_cell i t (section_content t raw)] @
          (if length (re_split atomic_pat (section_content t raw)) > 1
           then map (\<lambda>k. atomic_cell i k (re_split atomic_pat (section_content t raw) ! k)
                                        (re_split atomic_pat (section_content t raw) ! (k + 1)))
                    (filter odd [1..<length (re_split atomic_pat (section_content t raw))])
           else []))"
proof -
  have "odd (length (re_split atomic_pat (section_content t raw)))"
    by (rule re_split_odd) (rule atomic_pat_groups)
  from atomic_loop_odd [OF this, of 1] show ?thesis
    by (simp add: section_body_def Let_def)
qed

lemma section_loop_cells:
  "odd (length secs) \<Longrightarrow> odd i \<Longrightarrow>
   section_loop secs i cs =
     Inr (cs @ concat (map (\<lambda>k. case section_body k (secs ! k) (secs ! (k + 1)) of
                                    Inr new \<Rightarrow> new | Inl e \<Rightarrow> [])
                           (filter odd [i..<length secs])))"
proof (induction secs i cs rule: section_loop.induct)
  case (1 secs i cs)
  show ?case
  proof (cases "i < length secs")
    case True
    with "1.prems" have nxt: "i + 1 < length secs" by (intro odd_next)
    obtain new where body: "section_body i (secs ! i) (secs ! (i + 1)) = Inr new"
      using section_body_cells by blast
    from "1.prems" have "odd (i + 2)" by simp
    from "1.IH" [OF True nxt body "1.prems"(1) this] True nxt body
    show ?thesis
      by (subst section_loop.simps) (simp add: filter_odd_step [OF "1.prems"(2) nxt])
  next
    case False
    then show ?thesis by (subst section_loop.simps) simp
  qed
qed


subsection \<open>The contents of the sections hold no marker\<close>

lemma section_pat_stable: "section_pat x = Some res \<Longrightarrow> section_pat (x @ y) \<noteq> None"
  by (cases res) (simp add: section_pat_ext)

lemma re_search_substring:
  assumes stab: "\<And>x y res. m x = Some res \<Longrightarrow> m (x @ y) \<noteq> None"
    and "re_search m x"
  shows "re_search m (a @ x @ b)"
proof -
  from assms(2) obtain a' b' where x: "x = a' @ b'" and "m b' \<noteq> None"
    by (auto simp: re_search_iff)
  then obtain res where "m b' = Some res" by auto
  from stab [OF this] have "m (b' @ b) \<noteq> None" .
  moreover have "a @ x @ b = (a @ a') @ (b' @ b)" by (simp add: x)
  ultimately show ?thesis unfolding re_search_iff by blast
qed

lemma section_search_substring:
  "re_search section_pat x \<Longrightarrow> re_search section_pat (a @ x @ b)"
  by (rule re_search_substring) (rule section_pat_stable)

lemma strip_substring: "\<exists>a b. s = a @ strip s @ b"
proof -
  let ?d = "dropWhile is_space s"
  have "rev (rev ?d) = rev (dropWhile is_space (rev ?d)) @ rev (takeWhile is_space (rev ?d))"
    by (metis rev_append takeWhile_dropWhile_id)
  then have "?d = strip s @ rev (takeWhile is_space (rev ?d))"
    unfolding strip_def by simp
  moreover have "s = takeWhile is_space s @ ?d" by simp
  ultimately have "s = takeWhile is_space s @ strip s @ rev (takeWhile is_space (rev ?d))"
    by metis
  then show ?thesis by blast
qed

lemma section_content_substring: "\<exists>a b. raw = a @ section_content t raw @ b"
proof -
  obtain a b where 1: "raw = a @ strip raw @ b" using strip_substring by blast
  obtain c where 2: "strip raw = remove_end_document (strip raw) @ c"
    using remove_end_document_prefix by blast
  obtain d where 3: "remove_end_document (strip raw) =
      remove_end_document (remove_end_document (strip raw)) @ d"
    using remove_end_document_prefix by blast
  show ?thesis
  proof (cases "contains ''RESPONSE'' (upper t)")
    case True
    then have "section_content t raw = remove_end_document (remove_end_document (strip raw))"
      by (simp add: section_content_def)
    with 1 2 3 have "raw = a @ section_content t raw @ (d @ c @ b)"
      by (metis append.assoc)
    then show ?thesis by blast
  next
    case False
    then have "section_content t raw = remove_end_document (strip raw)"
      by (simp add: section_content_def)
    with 1 2 have "raw = a @ section_content t raw @ (c @ b)"
      by (metis append.assoc)
    then show ?thesis by blast
  qed
qed

lemma section_content_clean:
  assumes "\<not> re_search section_pat raw"
  shows "\<not> re_search atomic_pat (section_content t raw)"
proof
  assume "re_search atomic_pat (section_content t raw)"
  then obtain a b where "section_content t raw = a @ b" "atomic_pat b \<noteq> None"
    by (auto simp: re_search_iff)
  then have "re_search section_pat (section_content t raw)"
    unfolding re_search_iff using atomic_pat_section_pat by fastforce
  moreover obtain a' b' where "raw = a' @ section_content t raw @ b'"
    using section_content_substring by blast
  ultimately have "re_search section_pat raw"
    using section_search_substring by metis
  with assms show False ..
qed

lemma section_split_clean:
  assumes "even k" "k < length (re_split section_pat text)"
  shows "\<not> re_search section_pat (re_split section_pat text ! k)"
proof -
  obtain ms t where sc: "re_scan section_pat [] text = (ms, t)"
    by (cases "re_scan section_pat [] text")
  have clean: "(\<forall>(pre, gs)\<in>set ms. \<not> re_search section_pat pre) \<and> \<not> re_search section_pat t"
  proof (rule re_scan_clean [where acc = "[]" and s = "text"])
    show "\<And>x y res. section_pat x = Some res \<Longrightarrow> section_pat (x @ y) \<noteq> None"
      by (rule section_pat_stable)
    show "\<And>x gs r. section_pat x = Some (gs, r) \<Longrightarrow> length r < length x"
      by (rule section_pat_progress)
    show "\<And>a b. [] = a @ b \<Longrightarrow> b \<noteq> [] \<Longrightarrow> section_pat (b @ text) = None" by simp
    show "re_scan section_pat [] text = (ms, t)" by (rule sc)
  qed
  have one: "length gs = 1" if "(pre, gs) \<in> set ms" for pre gs
  proof -
    from that sc have "(pre, gs) \<in> set (fst (re_scan section_pat [] text))" by simp
    from re_scan_groups [OF this] show ?thesis by (auto dest: section_pat_groups)
  qed
  have all: "\<forall>(pre, gs)\<in>set ms. length gs = 1 \<and> \<not> re_search section_pat pre"
    using clean one by auto
  have split: "re_split section_pat text = concat (map (\<lambda>(pre, gs). pre # gs) ms) @ [t]"
    using sc by (simp add: re_split_def)
  from split_even_elems [of ms "\<lambda>x. \<not> re_search section_pat x" t k, OF all] clean assms
  show ?thesis unfolding split by blast
qed

lemma section_split_odd: "odd (length (re_split section_pat text))"
  by (rule re_split_odd) (rule section_pat_groups)

lemma section_contents_plain:
  assumes "odd k" "k < length (re_split section_pat text)"
  shows "\<not> re_search atomic_pat
           (section_content (re_split section_pat text ! k) (re_split section_pat text ! (k + 1)))"
proof -
  from assms section_split_odd [of "text"] have "k + 1 < length (re_split section_pat text)"
    by (intro odd_next)
  moreover from assms(1) have "even (k + 1)" by simp
  ultimately have "\<not> re_search section_pat (re_split section_pat text ! (k + 1))"
    by (intro section_split_clean)
  then show ?thesis by (rule section_content_clean)
qed

lemma section_loop_plain:
  "section_loop (re_split section_pat text) 1 cs =
     Inr (cs @ concat (map (plain_cells (re_split section_pat text))
                           (filter odd [1..<length (re_split section_pat text)])))"
proof -
  let ?secs = "re_split section_pat text"
  have "(case section_body k (?secs ! k) (?secs ! (k + 1)) of Inr new \<Rightarrow> new | Inl e \<Rightarrow> []) =
        plain_cells ?secs k" if "k \<in> set (filter odd [1..<length ?secs])" for k
  proof -
    from that have "odd k" "k < length ?secs" by auto
    from section_contents_plain [OF this] show ?thesis
      by (simp add: section_body_plain plain_cells_def)
  qed
  then have "map (\<lambda>k. case section_body k (?secs ! k) (?secs ! (k + 1)) of
                         Inr new \<Rightarrow> new | Inl e \<Rightarrow> [])
                 (filter odd [1..<length ?secs]) =
             map (plain_cells ?secs) (filter odd [1..<length ?secs])"
    by (intro map_cong) auto
  then have "concat (map (\<lambda>k. case section_body k (?secs ! k) (?secs ! (k + 1)) of
                         Inr new \<Rightarrow> new | Inl e \<Rightarrow> [])
                 (filter odd [1..<length ?secs])) =
             concat (map (plain_cells ?secs) (filter odd [1..<length ?secs]))"
    by (rule arg_cong)
  with section_loop_cells [OF section_split_odd, of 1 "text" cs] show ?thesis by simp
qed

lemma parse_input_to_notebook_plain:
  "parse_input_to_notebook text =
     Inr \<lparr>cells = map cleanup_cell
                     ([markdown_cell metadata_text ''metadata_cell''] @
                      concat (map (plain_cells (re_split section_pat (remove_end_document text)))
                                  (filter odd [1..<length (re_split section_pat (remove_end_document text))])) @
                      [markdown_cell ''---'' ''final_separator'']),
          provenance = [], nbformat = 4, nbformat_minor = 5\<rparr>"
  unfolding parse_input_to_notebook_def Let_def section_loop_plain by simp

section \<open>The pairs of the split\<close>

lemma cleanup_fixed_cells:
  "cleanup_cell (markdown_cell metadata_text ''metadata_cell'') =
     markdown_cell metadata_text ''metadata_cell''"
  "cleanup_cell (markdown_cell ''---'' ''final_separator'') = markdown_cell ''---'' ''final_separator''"
  by code_simp+

text \<open>
  C10. The split of any text on the section marker has an odd number of entries, one
  text before the first marker and a label with its content for each marker, so the
  read of \<open>sections[i + 1]\<close> is in range in every round and
  \<open>parse_input_to_notebook\<close> returns a notebook, never IndexError.
\<close>

theorem section_split_pairs:
  "odd (length (re_split section_pat text)) \<and> (\<exists>nb. parse_input_to_notebook text = Inr nb)"
  using section_split_odd [of "text"] parse_input_to_notebook_plain [of "text"] by blast

theorem section_split_pairs_witness:
  "odd (length (re_split section_pat spec_example_text)) \<and>
   (\<exists>nb. parse_input_to_notebook spec_example_text = Inr nb)"
  using section_split_pairs [of spec_example_text] .

section \<open>Texts without a marker\<close>

lemma no_marker_split:
  assumes "\<not> re_search section_pat t"
  shows "re_split section_pat (remove_end_document t) = [remove_end_document t]"
proof -
  obtain b where "t = [] @ remove_end_document t @ b"
    using remove_end_document_prefix [of t] by auto
  with assms have "\<not> re_search section_pat (remove_end_document t)"
    using section_search_substring by metis
  then show ?thesis by (simp add: re_split_def re_scan_no_match)
qed

text \<open>
  C8. On the empty text, and on every text in which the section marker matches
  nowhere, \<open>parse_input_to_notebook\<close> returns the notebook of exactly two cells: the
  metadata cell and the final divider.
\<close>

theorem no_marker_document:
  "parse_input_to_notebook [] =
     Inr \<lparr>cells = [markdown_cell metadata_text ''metadata_cell'',
                    markdown_cell ''---'' ''final_separator''],
          provenance = [], nbformat = 4, nbformat_minor = 5\<rparr> \<and>
   (\<not> re_search section_pat t \<longrightarrow>
    parse_input_to_notebook t =
      Inr \<lparr>cells = [markdown_cell metadata_text ''metadata_cell'',
                     markdown_cell ''---'' ''final_separator''],
           provenance = [], nbformat = 4, nbformat_minor = 5\<rparr>)"
proof -
  have gen: "parse_input_to_notebook x =
      Inr \<lparr>cells = [markdown_cell metadata_text ''metadata_cell'',
                     markdown_cell ''---'' ''final_separator''],
           provenance = [], nbformat = 4, nbformat_minor = 5\<rparr>"
    if "\<not> re_search section_pat x" for x
    unfolding parse_input_to_notebook_plain no_marker_split [OF that]
    by (simp add: cleanup_fixed_cells)
  have "\<not> re_search section_pat []" by code_simp
  from gen [OF this] gen show ?thesis by blast
qed

theorem no_marker_document_witness:
  "parse_input_to_notebook ''Hello'' =
      Inr \<lparr>cells = [markdown_cell metadata_text ''metadata_cell'',
                     markdown_cell ''---'' ''final_separator''],
           provenance = [], nbformat = 4, nbformat_minor = 5\<rparr>"
proof -
  have "\<not> re_search section_pat ''Hello''" by code_simp
  with no_marker_document [of "''Hello''"] show ?thesis by blast
qed

section \<open>Atomic markers\<close>

text \<open>
  C9, as stated, fails in its last part: the label \<open>[atomic_a-prompt]\<close> is an atomic
  marker, and its cell comes after the divider \<open>separator_1\<close>, since the label holds
  the word PROMPT.
\<close>

theorem atomic_label_with_divider:
  "atomic_pat (BS # ''section*{[atomic_a-prompt]}x'') = Some ([''[atomic_a-prompt]''], ''x'') \<and>
   parse_input_to_notebook (BS # ''section*{[atomic_a-prompt]}x'') =
     Inr \<lparr>cells = [markdown_cell metadata_text ''metadata_cell'',
                    markdown_cell ''---'' ''separator_1'',
                    markdown_cell (''**[atomic_a-prompt]**'' @ [NL, NL] @ ''x'') ''section_1'',
                    markdown_cell ''---'' ''final_separator''],
          provenance = [], nbformat = 4, nbformat_minor = 5\<rparr>"
  by code_simp

text \<open>
  C9, amended. Where the atomic pattern matches, the section pattern matches with the
  same label and the same rest of the text. So for every text the atomic split of
  the content of every section has exactly one part, and the notebook holds, between
  the metadata cell and the final divider, only the cells \<open>plain_cells\<close> of the pairs of
  the top-level split: a label with the prefix \<open>atomic_\<close> gets its cell \<open>section_k\<close> as
  any other label does, with a divider before it when the label asks for one.
\<close>

theorem atomic_markers_consumed:
  "(atomic_pat s = Some res \<longrightarrow> section_pat s = Some res) \<and>
   (odd k \<and> k < length (re_split section_pat (remove_end_document t)) \<longrightarrow>
      length (re_split atomic_pat
                (section_content (re_split section_pat (remove_end_document t) ! k)
                                 (re_split section_pat (remove_end_document t) ! (k + 1)))) = 1) \<and>
   parse_input_to_notebook t =
     Inr \<lparr>cells = map cleanup_cell
                     ([markdown_cell metadata_text ''metadata_cell''] @
                      concat (map (plain_cells (re_split section_pat (remove_end_document t)))
                                  (filter odd [1..<length (re_split section_pat (remove_end_document t))])) @
                      [markdown_cell ''---'' ''final_separator'']),
          provenance = [], nbformat = 4, nbformat_minor = 5\<rparr>"
proof -
  have "length (re_split atomic_pat
                (section_content (re_split section_pat (remove_end_document t) ! k)
                                 (re_split section_pat (remove_end_document t) ! (k + 1)))) = 1"
    if "odd k" "k < length (re_split section_pat (remove_end_document t))"
    using section_contents_plain [OF that]
    by (simp add: re_split_def re_scan_no_match)
  then show ?thesis
    using atomic_pat_section_pat [of s res] parse_input_to_notebook_plain [of t] by blast
qed

theorem atomic_markers_consumed_witness:
  "section_pat (BS # ''section*{[atomic_a]}foo'') = Some ([''[atomic_a]''], ''foo'') \<and>
   length (re_split atomic_pat
            (section_content (re_split section_pat (remove_end_document spec_example_text) ! 3)
                             (re_split section_pat (remove_end_document spec_example_text) ! (3 + 1)))) = 1"
proof -
  have a: "atomic_pat (BS # ''section*{[atomic_a]}foo'') = Some ([''[atomic_a]''], ''foo'')"
    by code_simp
  have b: "odd (3::nat) \<and> 3 < length (re_split section_pat (remove_end_document spec_example_text))"
    by code_simp
  from atomic_markers_consumed
    [of "BS # ''section*{[atomic_a]}foo''" "([''[atomic_a]''], ''foo'')" 3 spec_example_text] a b
  show ?thesis by blast
qed

section \<open>The ids of the cells\<close>

subsection \<open>The decimal numeral of an index\<close>

lemma digit_char_digit: "d < 10 \<Longrightarrow> digit_char d \<in> set ''0123456789''"
  unfolding digit_char_def by (rule nth_mem) simp

lemma digit_char_inj: "a < 10 \<Longrightarrow> b < 10 \<Longrightarrow> digit_char a = digit_char b \<Longrightarrow> a = b"
proof -
  assume a: "a < 10" and b: "b < 10" and eq: "digit_char a = digit_char b"
  have "distinct ''0123456789''" by simp
  moreover have "a < length ''0123456789''" "b < length ''0123456789''" using a b by simp_all
  ultimately show "a = b" using eq unfolding digit_char_def
    by (simp only: nth_eq_iff_index_eq)
qed

lemma str_nat_nonempty: "str_nat n \<noteq> []"
  by (subst str_nat.simps) simp

lemma str_nat_digits: "set (str_nat n) \<subseteq> set ''0123456789''"
proof (induction n rule: str_nat.induct)
  case (1 n)
  show ?case
  proof (cases "n < 10")
    case True
    with digit_char_digit [OF True] show ?thesis
      by (subst str_nat.simps) simp
  next
    case False
    have "n mod 10 < 10" by simp
    from digit_char_digit [OF this] "1.IH" [OF False] False show ?thesis
      by (subst str_nat.simps) simp
  qed
qed

lemma str_nat_inj: "str_nat n = str_nat m \<Longrightarrow> n = m"
proof (induction n arbitrary: m rule: str_nat.induct)
  case (1 n)
  show ?case
  proof (cases "n < 10")
    case n: True
    show ?thesis
    proof (cases "m < 10")
      case True
      with n "1.prems" have "[digit_char n] = [digit_char m]"
        by (simp add: str_nat.simps [of n] str_nat.simps [of m])
      with n True show ?thesis by (auto dest: digit_char_inj)
    next
      case False
      with n "1.prems" have "[digit_char n] = str_nat (m div 10) @ [digit_char (m mod 10)]"
        by (simp add: str_nat.simps [of n] str_nat.simps [of m])
      then have "str_nat (m div 10) = []" by simp
      with str_nat_nonempty show ?thesis by blast
    qed
  next
    case n: False
    show ?thesis
    proof (cases "m < 10")
      case True
      with n "1.prems" have "str_nat (n div 10) @ [digit_char (n mod 10)] = [digit_char m]"
        by (simp add: str_nat.simps [of n] str_nat.simps [of m])
      then have "str_nat (n div 10) = []" by simp
      with str_nat_nonempty show ?thesis by blast
    next
      case False
      with n "1.prems" have "str_nat (n div 10) @ [digit_char (n mod 10)] =
                             str_nat (m div 10) @ [digit_char (m mod 10)]"
        by (simp add: str_nat.simps [of n] str_nat.simps [of m])
      then have a: "str_nat (n div 10) = str_nat (m div 10)"
        and b: "digit_char (n mod 10) = digit_char (m mod 10)" by simp_all
      from "1.IH" [OF n a] have "n div 10 = m div 10" .
      moreover from b have "n mod 10 = m mod 10" by (intro digit_char_inj) simp_all
      ultimately show ?thesis by (metis div_mult_mod_eq)
    qed
  qed
qed

lemma str_nat_not_b: "str_nat n \<noteq> CHR ''b'' # x"
proof
  assume "str_nat n = CHR ''b'' # x"
  then have "CHR ''b'' \<in> set (str_nat n)" by simp
  with str_nat_digits [of n] have "CHR ''b'' \<in> set ''0123456789''" by blast
  then show False by simp
qed

lemma str_nat_not_b': "CHR ''b'' # x \<noteq> str_nat n"
  using str_nat_not_b [of n x] by (rule not_sym)

subsection \<open>The ids\<close>

lemma cleanup_cell_id: "cell_id (cleanup_cell c) = cell_id c"
  by (simp add: cleanup_cell_def)

lemma plain_cells_ids: "map cell_id (plain_cells secs k) = plain_ids secs k"
  by (simp add: plain_cells_def plain_ids_def divider_cells_def section_cell_def markdown_cell_def)

lemma plain_ids_cases:
  assumes "x \<in> set (plain_ids secs k)"
  obtains (before) "x = ''separator_before_'' @ secs ! k" "re_search section_label_pat (upper (secs ! k))"
  | (sep) "x = ''separator_'' @ str_nat k"
  | (sec) "x = ''section_'' @ str_nat k"
  using assms by (auto simp: plain_ids_def split: if_splits)

lemma plain_ids_distinct: "distinct (plain_ids secs k)"
  by (simp add: plain_ids_def)

lemma plain_ids_disjoint:
  assumes "k \<noteq> k'"
    and "re_search section_label_pat (upper (secs ! k)) \<Longrightarrow>
         re_search section_label_pat (upper (secs ! k')) \<Longrightarrow> secs ! k \<noteq> secs ! k'"
    and "x \<in> set (plain_ids secs k)" "x \<in> set (plain_ids secs k')"
  shows False
  using assms(3)
proof (cases rule: plain_ids_cases)
  case before
  from assms(4) show ?thesis
  proof (cases rule: plain_ids_cases)
    case before': before
    with before assms(2) show ?thesis by simp
  next
    case sep
    with before show ?thesis using str_nat_not_b [of k'] str_nat_not_b' [of _ k'] by simp
  next
    case sec
    with before show ?thesis by simp
  qed
next
  case sep
  from assms(4) show ?thesis
  proof (cases rule: plain_ids_cases)
    case before
    with sep show ?thesis using str_nat_not_b [of k] str_nat_not_b' [of _ k] by simp
  next
    case sep': sep
    with sep assms(1) show ?thesis by (auto dest: str_nat_inj)
  next
    case sec
    with sep show ?thesis by simp
  qed
next
  case sec
  from assms(4) show ?thesis
  proof (cases rule: plain_ids_cases)
    case before
    with sec show ?thesis by simp
  next
    case sep
    with sec show ?thesis by simp
  next
    case sec': sec
    with sec assms(1) show ?thesis by (auto dest: str_nat_inj)
  qed
qed

lemma plain_ids_all_distinct:
  "distinct ks \<Longrightarrow>
   distinct (filter (\<lambda>t. re_search section_label_pat (upper t)) (map (\<lambda>k. secs ! k) ks)) \<Longrightarrow>
   distinct (concat (map (plain_ids secs) ks))"
proof (induction ks)
  case Nil
  then show ?case by simp
next
  case (Cons k ks)
  let ?L = "\<lambda>t. re_search section_label_pat (upper t)"
  from Cons.prems have d: "distinct ks"
    and f: "distinct (filter ?L (map (\<lambda>k. secs ! k) ks))"
    by (auto split: if_splits)
  have rest: "distinct (concat (map (plain_ids secs) ks))" by (rule Cons.IH [OF d f])
  have disj: "x \<notin> set (concat (map (plain_ids secs) ks))" if x: "x \<in> set (plain_ids secs k)" for x
  proof
    assume "x \<in> set (concat (map (plain_ids secs) ks))"
    then obtain k' where k': "k' \<in> set ks" and x': "x \<in> set (plain_ids secs k')" by auto
    from Cons.prems(1) k' have ne: "k \<noteq> k'" by auto
    have "secs ! k \<noteq> secs ! k'" if "?L (secs ! k)" "?L (secs ! k')"
    proof -
      from that(1) Cons.prems(2) have "secs ! k \<notin> set (filter ?L (map (\<lambda>k. secs ! k) ks))"
        by simp
      moreover from that(2) k' have "secs ! k' \<in> set (filter ?L (map (\<lambda>k. secs ! k) ks))"
        by simp
      ultimately show ?thesis by metis
    qed
    with plain_ids_disjoint [OF ne _ x x'] show False by blast
  qed
  from rest disj plain_ids_distinct [of secs k] show ?case by auto
qed

lemma plain_ids_not_fixed:
  "x \<in> set (concat (map (plain_ids secs) ks)) \<Longrightarrow> x \<noteq> ''metadata_cell'' \<and> x \<noteq> ''final_separator''"
  by (auto elim!: plain_ids_cases)

text \<open>
  C4, as stated, fails: two sections with the label \<open>[SECTION_01]\<close> give two dividers
  with the id \<open>separator_before_[SECTION_01]\<close>.
\<close>

theorem duplicate_block_ids:
  "\<not> distinct (case parse_input_to_notebook
                     (BS # ''section*{[SECTION_01]}a'' @ BS # ''section*{[SECTION_01]}b'') of
                  Inl e \<Rightarrow> []
                | Inr nb \<Rightarrow> map cell_id (cells nb))"
  by code_simp

text \<open>
  C4, amended. The ids of the cells of a notebook are pairwise different whenever the
  labels that get a divider of the first kind (those that hold \<open>[SECTION_\<close>, digits
  and \<open>]\<close> in upper case) are pairwise different among the sections of the text.
\<close>

theorem block_ids_unique:
  assumes "distinct (filter (\<lambda>title. re_search section_label_pat (upper title))
                      (map (\<lambda>i. re_split section_pat (remove_end_document t) ! i)
                           (filter odd [1..<length (re_split section_pat (remove_end_document t))])))"
    and "parse_input_to_notebook t = Inr nb"
  shows "distinct (map cell_id (cells nb))"
proof -
  let ?secs = "re_split section_pat (remove_end_document t)"
  let ?ks = "filter odd [1..<length ?secs]"
  have ids: "map cell_id (cells nb) =
        [''metadata_cell''] @ concat (map (plain_ids ?secs) ?ks) @ [''final_separator'']"
    using assms(2) unfolding parse_input_to_notebook_plain
    by (auto simp: map_concat comp_def cleanup_cell_id plain_cells_ids markdown_cell_def)
  have "distinct ?ks" by simp
  from plain_ids_all_distinct [OF this assms(1)]
  have "distinct (concat (map (plain_ids ?secs) ?ks))" .
  with plain_ids_not_fixed [of _ ?secs ?ks] show ?thesis unfolding ids by auto
qed

theorem block_ids_unique_witness:
  "distinct (case parse_input_to_notebook spec_example_text of
               Inl e \<Rightarrow> []
             | Inr nb \<Rightarrow> map cell_id (cells nb))"
proof -
  obtain nb where nb: "parse_input_to_notebook spec_example_text = Inr nb"
    using parse_input_to_notebook_plain by blast
  have "distinct (filter (\<lambda>title. re_search section_label_pat (upper title))
                      (map (\<lambda>i. re_split section_pat (remove_end_document spec_example_text) ! i)
                           (filter odd [1..<length (re_split section_pat (remove_end_document spec_example_text))])))"
    by code_simp
  from block_ids_unique [OF this nb] nb show ?thesis by simp
qed

end
